theory Spec2Isabelle
  imports Main "HOL-Library.Signed_Division"
begin

section \<open>Graphs, arrays and errors\<close>

text \<open>
  Modelled from the spec: the graph type of \<^verbatim>\<open>graph.hpp\<close> is not among the sources.
  A graph has vertices \<open>0..num_vertices-1\<close> and edges that are pairs of vertex indices;
  the position of an edge in the list is its edge index, which aligns edge-indexed arrays.
\<close>

record ugraph =
  num_vertices :: nat
  edges :: "(nat \<times> nat) list"

definition num_edges :: "ugraph \<Rightarrow> nat" where
  "num_edges graph = length (edges graph)"

definition vertex_iterator :: "ugraph \<Rightarrow> nat list" where
  "vertex_iterator graph = [0..<num_vertices graph]"

definition edge :: "nat \<Rightarrow> ugraph \<Rightarrow> nat \<times> nat" where
  "edge edge_index graph = edges graph ! edge_index"

definition other_vertex :: "nat \<times> nat \<Rightarrow> nat \<Rightarrow> nat" where
  "other_vertex e v = (if fst e = v then snd e else fst e)"

text \<open>
  Modelled from the spec: per-vertex out-edge iteration of an undirected graph yields the
  indices of the edges that have the vertex as an endpoint, in increasing index order.
\<close>

definition out_edge_index_iterator :: "nat \<Rightarrow> ugraph \<Rightarrow> nat list" where
  "out_edge_index_iterator v graph =
     filter (\<lambda>i. fst (edge i graph) = v \<or> snd (edge i graph) = v) [0..<num_edges graph]"

text \<open>A graph is well formed when both endpoints of every edge are vertices.\<close>

definition wf_graph :: "ugraph \<Rightarrow> bool" where
  "wf_graph graph =
     list_all (\<lambda>e. fst e < num_vertices graph \<and> snd e < num_vertices graph) (edges graph)"

text \<open>
  A dense array as the array library presents it: a shape (one extent per axis) and the
  flat storage. \<open>dimension\<close> is the number of axes, \<open>xsize\<close> the number of elements.
\<close>

record 'a xarray =
  shape :: "nat list"
  storage :: "'a list"

definition dimension :: "'a xarray \<Rightarrow> nat" where
  "dimension a = length (shape a)"

definition xsize :: "'a xarray \<Rightarrow> nat" where
  "xsize a = prod_list (shape a)"

definition array_1d :: "'a list \<Rightarrow> 'a xarray" where
  "array_1d xs = \<lparr>shape = [length xs], storage = xs\<rparr>"

datatype error = runtime_error string | shape_mismatch | out_of_range

text \<open>
  Modelled from the spec: \<open>invalid_index\<close> is the sentinel "unset" of a label array,
  different from every positive label; its declaration is not among the sources.
\<close>

definition invalid_index :: int where
  "invalid_index = - 1"

section \<open>Cut labelling (cut.hpp)\<close>

text \<open>
  The body of the loop over the out-edges of the popped vertex \<open>cv\<close> (lines 51-59):
  an edge of weight zero leads to the other endpoint, which is labelled and pushed
  when it is still unlabelled.
\<close>

definition visit_edge ::
  "ugraph \<Rightarrow> 'a::zero list \<Rightarrow> int \<Rightarrow> nat \<Rightarrow> nat \<Rightarrow> int list \<times> nat list \<Rightarrow> int list \<times> nat list" where
  "visit_edge graph edge_weights current_label cv edge_index st =
     (case st of (labels, stack) \<Rightarrow>
        if edge_weights ! edge_index = 0 then
          (let e = edge edge_index graph; n = other_vertex e cv in
             if labels ! n = invalid_index then (labels[n := current_label], n # stack)
             else (labels, stack))
        else (labels, stack))"

text \<open>
  The while loop on the stack (lines 48-61). The head of the list is the top of the
  stack. A run that never empties the stack has the value \<open>None\<close>.
\<close>

partial_function (option) explore ::
  "ugraph \<Rightarrow> 'a::zero list \<Rightarrow> int \<Rightarrow> int list \<Rightarrow> nat list \<Rightarrow> int list option" where
  "explore graph edge_weights current_label labels stack =
     (case stack of
        [] \<Rightarrow> Some labels
      | cv # rest \<Rightarrow>
          (case fold (visit_edge graph edge_weights current_label cv)
                  (out_edge_index_iterator cv graph) (labels, rest) of
             (labels', stack') \<Rightarrow> explore graph edge_weights current_label labels' stack'))"

declare explore.simps [code]

text \<open>
  The loop over the vertices (lines 43-63); the state is the label array and the counter.
  The counter grows by one per discovered component, so it never exceeds the number of
  vertices; labels are modelled as unbounded integers.
\<close>

fun scan ::
  "ugraph \<Rightarrow> 'a::zero list \<Rightarrow> nat list \<Rightarrow> int list \<times> int \<Rightarrow> (int list \<times> int) option" where
  "scan graph edge_weights [] st = Some st"
| "scan graph edge_weights (v # vs) (labels, current_label) =
     (if labels ! v = invalid_index then
        (case explore graph edge_weights (current_label + 1)
                (labels[v := current_label + 1]) [v] of
           None \<Rightarrow> None
         | Some labels' \<Rightarrow> scan graph edge_weights vs (labels', current_label + 1))
      else scan graph edge_weights vs (labels, current_label))"

text \<open>Lines 38-63: the fresh label array filled with the sentinel, the counter at 0, the scan.\<close>

definition label_vertices :: "ugraph \<Rightarrow> 'a::zero list \<Rightarrow> (int list \<times> int) option" where
  "label_vertices graph edge_weights =
     scan graph edge_weights (vertex_iterator graph)
       (replicate (num_vertices graph) invalid_index, 0)"

text \<open>
  The whole function. Modelled from the spec: a failed \<open>hg_assert\<close> (the macro is not
  among the sources) is an error returned to the caller, here with the message of the
  assertion. The result is \<open>None\<close> when the loops do not return, \<open>Some (Inl e)\<close> for a
  failed assertion and \<open>Some (Inr labels)\<close> for the returned label array.
\<close>

definition graph_cut_2_labelisation :: "ugraph \<Rightarrow> 'a::zero xarray \<Rightarrow> (error + int list) option" where
  "graph_cut_2_labelisation graph xedge_weights =
     (if dimension xedge_weights \<noteq> 1 then
        Some (Inl (runtime_error ''Edge weights must be scalar.''))
      else if num_edges graph \<noteq> xsize xedge_weights then
        Some (Inl (runtime_error ''Edge weights size does not match graph number of edges.''))
      else map_option (\<lambda>st. Inr (fst st)) (label_vertices graph (storage xedge_weights)))"

section \<open>The graph of the test scenario\<close>

text \<open>The path graph on \<open>n\<close> vertices: edge \<open>i\<close> joins \<open>i\<close> and \<open>i + 1\<close>.\<close>

definition path_graph :: "nat \<Rightarrow> ugraph" where
  "path_graph n = \<lparr>num_vertices = n, edges = map (\<lambda>i. (i, i + 1)) [0..<n - 1]\<rparr>"

definition scenario_weights :: "int list" where
  "scenario_weights = [3, 0, 0, 1, 3, 0, 1, 0, 2, 0, 1, 0, 3, 0]"

section \<open>Specification of the labelling\<close>

text \<open>An array is well formed when its storage holds as many elements as its shape says.\<close>

definition wf_xarray :: "'a xarray \<Rightarrow> bool" where
  "wf_xarray a = (length (storage a) = xsize a)"

text \<open>Two weight lists have the same zero pattern: same length, zero at the same indices.\<close>

definition same_zero_pattern :: "'a::zero list \<Rightarrow> 'b::zero list \<Rightarrow> bool" where
  "same_zero_pattern ws ws' =
     (length ws = length ws' \<and> list_all (\<lambda>i. (ws ! i = 0) = (ws' ! i = 0)) [0..<length ws])"

text \<open>
  Two vertices are adjacent in the uncut graph when an edge of weight zero joins them
  (in either direction); they are connected when a path of such edges joins them.
\<close>

definition uncut_adjacent :: "ugraph \<Rightarrow> 'a::zero list \<Rightarrow> (nat \<times> nat) set" where
  "uncut_adjacent graph ws =
     {(u, v). \<exists>i<num_edges graph. ws ! i = 0 \<and> (edge i graph = (u, v) \<or> edge i graph = (v, u))}"

definition connected :: "ugraph \<Rightarrow> 'a::zero list \<Rightarrow> nat \<Rightarrow> nat \<Rightarrow> bool" where
  "connected graph ws u v = ((u, v) \<in> (uncut_adjacent graph ws)\<^sup>*)"

text \<open>
  The vertex of least index of its component: the one at which the scan over the
  vertices discovers the component.
\<close>

definition component_first :: "ugraph \<Rightarrow> 'a::zero list \<Rightarrow> nat \<Rightarrow> bool" where
  "component_first graph ws r = (\<forall>u. connected graph ws r u \<longrightarrow> r \<le> u)"

text \<open>The number of components discovered up to and including the one that starts at \<open>r\<close>.\<close>

definition label_rank :: "ugraph \<Rightarrow> 'a::zero list \<Rightarrow> nat \<Rightarrow> int" where
  "label_rank graph ws r = int (card {r'. r' \<le> r \<and> component_first graph ws r'})"

subsection \<open>Loop invariants\<close>

text \<open>The number of entries still at the sentinel: it bounds the pushes that remain.\<close>

definition count_unset :: "int list \<Rightarrow> nat" where
  "count_unset labels = length (filter (\<lambda>x. x = invalid_index) labels)"

text \<open>
  What the loop over the out-edges of \<open>cv\<close> does to the labels and the stack: the only
  changes are unlabelled neighbours of \<open>cv\<close> that receive the label \<open>c\<close>, and exactly
  those are pushed.
\<close>

definition visit_post ::
  "ugraph \<Rightarrow> 'a::zero list \<Rightarrow> int \<Rightarrow> nat \<Rightarrow> int list \<Rightarrow> nat list \<Rightarrow> int list \<Rightarrow> nat list \<Rightarrow> bool" where
  "visit_post graph ws c cv L S L' S' =
     (length L' = length L \<and>
      (\<forall>v<length L. L' ! v = L ! v \<or>
          (L ! v = invalid_index \<and> L' ! v = c \<and> (cv, v) \<in> uncut_adjacent graph ws)) \<and>
      (\<exists>P. S' = P @ S \<and>
          (\<forall>v\<in>set P. v < length L \<and> L ! v = invalid_index \<and> L' ! v = c) \<and>
          (\<forall>v<length L. L ! v = invalid_index \<and> L' ! v \<noteq> invalid_index \<longrightarrow> v \<in> set P) \<and>
          count_unset L' + length P = count_unset L))"

text \<open>
  The invariant of the while loop that explores the component of \<open>s\<close> with label \<open>c\<close>,
  starting from the labels \<open>L0\<close>: outside the component nothing has changed, inside it a
  vertex has the label \<open>c\<close> or none, the stack holds labelled vertices of the component,
  and every neighbour of a labelled vertex that has left the stack is labelled.
\<close>

definition explore_inv ::
  "ugraph \<Rightarrow> 'a::zero list \<Rightarrow> nat \<Rightarrow> int \<Rightarrow> int list \<Rightarrow> int list \<Rightarrow> nat list \<Rightarrow> bool" where
  "explore_inv graph ws s c L0 L S =
     (length L = num_vertices graph \<and> s < num_vertices graph \<and> L ! s = c \<and>
      (\<forall>v<num_vertices graph. \<not> connected graph ws s v \<longrightarrow> L ! v = L0 ! v) \<and>
      (\<forall>v<num_vertices graph. connected graph ws s v \<longrightarrow> L ! v = c \<or> L ! v = invalid_index) \<and>
      (\<forall>v\<in>set S. v < num_vertices graph \<and> connected graph ws s v \<and> L ! v = c) \<and>
      (\<forall>u<num_vertices graph. connected graph ws s u \<and> L ! u = c \<and> u \<notin> set S \<longrightarrow>
          (\<forall>v. (u, v) \<in> uncut_adjacent graph ws \<longrightarrow> L ! v = c)))"

text \<open>
  The invariant of the scan when it reaches vertex \<open>k\<close>: the labelled vertices are those
  of the components that contain a vertex below \<open>k\<close>, each carries the rank of its
  component, and the counter is the number of components discovered so far.
\<close>

definition scan_inv :: "ugraph \<Rightarrow> 'a::zero list \<Rightarrow> nat \<Rightarrow> int list \<Rightarrow> int \<Rightarrow> bool" where
  "scan_inv graph ws k L cur =
     (length L = num_vertices graph \<and>
      (\<forall>v<num_vertices graph. (L ! v \<noteq> invalid_index) = (\<exists>r<k. connected graph ws r v)) \<and>
      (\<forall>v<num_vertices graph. \<forall>r<k. component_first graph ws r \<and> connected graph ws r v \<longrightarrow>
          L ! v = label_rank graph ws r) \<and>
      cur = int (card {r. r < k \<and> component_first graph ws r}))"

section \<open>Trees\<close>

text \<open>
  Modelled from the spec: the tree type is not among the sources. A tree is its array of
  parents and its number of leaves; the root is the last vertex and is its own parent;
  every other vertex has a parent of greater index; the leaves are the vertices
  \<open>0..num_leaves-1\<close>, so every parent is at or above \<open>num_leaves\<close>.
\<close>

record tree =
  parents :: "nat list"
  num_leaves :: nat

definition num_vertices_tree :: "tree \<Rightarrow> nat" where
  "num_vertices_tree t = length (parents t)"

definition parent :: "nat \<Rightarrow> tree \<Rightarrow> nat" where
  "parent v t = parents t ! v"

definition root :: "tree \<Rightarrow> nat" where
  "root t = num_vertices_tree t - 1"

definition children :: "nat \<Rightarrow> tree \<Rightarrow> nat list" where
  "children v t = filter (\<lambda>c. parent c t \<noteq> c \<and> parent c t = v) [0..<num_vertices_tree t]"

definition wf_tree :: "tree \<Rightarrow> bool" where
  "wf_tree t =
     (0 < num_vertices_tree t \<and> 0 < num_leaves t \<and> num_leaves t \<le> num_vertices_tree t \<and>
      parent (root t) t = root t \<and>
      list_all (\<lambda>v. v < parent v t \<and> parent v t < num_vertices_tree t \<and> num_leaves t \<le> parent v t)
        [0..<root t])"

section \<open>Reduction strategies\<close>

text \<open>
  Modelled from the spec: the declaration of the enumeration is not among the sources.
  The selector of the bindings has the members min, max, mean, counter, sum, prod, first,
  last, which are the cases of the switches; \<open>accumulators_unlisted\<close> stands for a value
  of the underlying integer type that is none of the eight members.
\<close>

datatype accumulators =
  accumulators_min | accumulators_max | accumulators_mean | accumulators_counter
  | accumulators_sum | accumulators_prod | accumulators_first | accumulators_last
  | accumulators_unlisted nat

text \<open>
  Modelled from the spec: the eight strategy objects that the bindings pass to the
  accumulation functions; their declarations are not among the sources.
\<close>

datatype accumulator =
  accumulator_min | accumulator_max | accumulator_mean | accumulator_counter
  | accumulator_sum | accumulator_prod | accumulator_first | accumulator_last

text \<open>
  Modelled from the spec: the strategies are not among the sources. A strategy has a
  neutral accumulation state, a combine operation per element and a finalize step. The
  state is a pair of a value and the number of elements seen. The neutral values of min
  and max are the greatest and the least value of the element type, which are parameters
  here. Values are integers; the mean divides the sum by the count at finalize.
\<close>

record numeric_limits =
  lowest :: int
  highest :: int

fun identity :: "numeric_limits \<Rightarrow> accumulator \<Rightarrow> int \<times> nat" where
  "identity lim accumulator_min = (highest lim, 0)"
| "identity lim accumulator_max = (lowest lim, 0)"
| "identity lim accumulator_prod = (1, 0)"
| "identity lim _ = (0, 0)"

fun combine :: "accumulator \<Rightarrow> int \<times> nat \<Rightarrow> int \<Rightarrow> int \<times> nat" where
  "combine accumulator_min (a, k) x = (min a x, k + 1)"
| "combine accumulator_max (a, k) x = (max a x, k + 1)"
| "combine accumulator_mean (a, k) x = (a + x, k + 1)"
| "combine accumulator_counter (a, k) x = (a + 1, k + 1)"
| "combine accumulator_sum (a, k) x = (a + x, k + 1)"
| "combine accumulator_prod (a, k) x = (a * x, k + 1)"
| "combine accumulator_first (a, k) x = (if k = 0 then x else a, k + 1)"
| "combine accumulator_last (a, k) x = (x, k + 1)"

fun finalize :: "accumulator \<Rightarrow> int \<times> nat \<Rightarrow> int" where
  "finalize accumulator_mean (a, k) = a sdiv int k"
| "finalize _ (a, k) = a"

definition reduce :: "numeric_limits \<Rightarrow> accumulator \<Rightarrow> int list \<Rightarrow> int" where
  "reduce lim acc xs = finalize acc (fold (\<lambda>x s. combine acc s x) xs (identity lim acc))"

section \<open>Tree accumulation\<close>

text \<open>
  Modelled from the spec: \<open>accumulate_parallel\<close> is not among the sources. The input has
  one value per vertex, else the call fails with a shape mismatch; the output at a vertex
  is the reduction of the input values of its direct children, the neutral value where
  there are none.
\<close>

definition accumulate_parallel ::
  "numeric_limits \<Rightarrow> tree \<Rightarrow> int list \<Rightarrow> accumulator \<Rightarrow> error + int list" where
  "accumulate_parallel lim t input acc =
     (if length input \<noteq> num_vertices_tree t then Inl shape_mismatch
      else Inr (map (\<lambda>v. reduce lim acc (map (\<lambda>c. input ! c) (children v t)))
                  [0..<num_vertices_tree t]))"

text \<open>
  Modelled from the spec: \<open>accumulate_sequential\<close> is not among the sources. The input has
  one value per leaf, else the call fails with a shape mismatch. The output has one value
  per vertex: the input at the leaves; the internal vertices are processed in increasing
  index order from \<open>num_leaves\<close> to \<open>num_vertices-1\<close>, each receiving the reduction of the
  already computed outputs of its children. A slot not yet computed holds 0.
\<close>

definition accumulate_vertex ::
  "numeric_limits \<Rightarrow> tree \<Rightarrow> accumulator \<Rightarrow> nat \<Rightarrow> int list \<Rightarrow> int list" where
  "accumulate_vertex lim t acc v out =
     out[v := reduce lim acc (map (\<lambda>c. out ! c) (children v t))]"

definition accumulate_sequential ::
  "numeric_limits \<Rightarrow> tree \<Rightarrow> int list \<Rightarrow> accumulator \<Rightarrow> error + int list" where
  "accumulate_sequential lim t leaf_values acc =
     (if length leaf_values \<noteq> num_leaves t then Inl shape_mismatch
      else Inr (fold (accumulate_vertex lim t acc) [num_leaves t..<num_vertices_tree t]
                  (leaf_values @ replicate (num_vertices_tree t - num_leaves t) 0)))"

text \<open>
  Modelled from the spec: \<open>accumulate_and_combine_sequential\<close> is not among the sources.
  As the sequential accumulation, but the reduction over the children of an internal
  vertex \<open>v\<close> is combined with \<open>input[v]\<close> by the function \<open>f\<close> before it is stored;
  \<open>input\<close> has one value per vertex.
\<close>

definition accumulate_and_combine_vertex ::
  "numeric_limits \<Rightarrow> tree \<Rightarrow> int list \<Rightarrow> accumulator \<Rightarrow> (int \<Rightarrow> int \<Rightarrow> int) \<Rightarrow> nat \<Rightarrow> int list \<Rightarrow> int list" where
  "accumulate_and_combine_vertex lim t input acc f v out =
     out[v := f (reduce lim acc (map (\<lambda>c. out ! c) (children v t))) (input ! v)]"

definition accumulate_and_combine_sequential ::
  "numeric_limits \<Rightarrow> tree \<Rightarrow> int list \<Rightarrow> int list \<Rightarrow> accumulator \<Rightarrow> (int \<Rightarrow> int \<Rightarrow> int) \<Rightarrow> error + int list" where
  "accumulate_and_combine_sequential lim t input leaf_values acc f =
     (if length input \<noteq> num_vertices_tree t then Inl shape_mismatch
      else if length leaf_values \<noteq> num_leaves t then Inl shape_mismatch
      else Inr (fold (accumulate_and_combine_vertex lim t input acc f)
                  [num_leaves t..<num_vertices_tree t]
                  (leaf_values @ replicate (num_vertices_tree t - num_leaves t) 0)))"

text \<open>
  Modelled from the spec: \<open>propagate_parallel\<close> is not among the sources. Without a
  condition the output at a vertex is the input value of its parent (the root is its own
  parent); with a condition the copy is made where the condition holds and the vertex
  keeps its own input value elsewhere. The arrays have one value per vertex.
\<close>

definition propagate_parallel :: "tree \<Rightarrow> int list \<Rightarrow> error + int list" where
  "propagate_parallel t input =
     (if length input \<noteq> num_vertices_tree t then Inl shape_mismatch
      else Inr (map (\<lambda>v. input ! parent v t) [0..<num_vertices_tree t]))"

definition propagate_parallel_condition :: "tree \<Rightarrow> int list \<Rightarrow> bool xarray \<Rightarrow> error + int list" where
  "propagate_parallel_condition t input condition =
     (if length input \<noteq> num_vertices_tree t then Inl shape_mismatch
      else if shape condition \<noteq> [num_vertices_tree t] then Inl shape_mismatch
      else if length (storage condition) \<noteq> num_vertices_tree t then Inl shape_mismatch
      else Inr (map (\<lambda>v. if storage condition ! v then input ! parent v t else input ! v)
                  [0..<num_vertices_tree t]))"

section \<open>The bindings of the accumulators (py\_tree\_accumulators.cpp)\<close>

text \<open>
  The three lambdas switch on the selector (lines 35-61, 77-103, 150-192); a selector
  that matches no case reaches the \<open>throw\<close> after the switch.
\<close>

definition py_accumulate_parallel ::
  "numeric_limits \<Rightarrow> tree \<Rightarrow> int list \<Rightarrow> accumulators \<Rightarrow> error + int list" where
  "py_accumulate_parallel lim t input accumulator =
     (case accumulator of
        accumulators_min \<Rightarrow> accumulate_parallel lim t input accumulator_min
      | accumulators_max \<Rightarrow> accumulate_parallel lim t input accumulator_max
      | accumulators_mean \<Rightarrow> accumulate_parallel lim t input accumulator_mean
      | accumulators_counter \<Rightarrow> accumulate_parallel lim t input accumulator_counter
      | accumulators_sum \<Rightarrow> accumulate_parallel lim t input accumulator_sum
      | accumulators_prod \<Rightarrow> accumulate_parallel lim t input accumulator_prod
      | accumulators_first \<Rightarrow> accumulate_parallel lim t input accumulator_first
      | accumulators_last \<Rightarrow> accumulate_parallel lim t input accumulator_last
      | accumulators_unlisted _ \<Rightarrow> Inl (runtime_error ''Unknown accumulator.''))"

definition py_accumulate_sequential ::
  "numeric_limits \<Rightarrow> tree \<Rightarrow> int list \<Rightarrow> accumulators \<Rightarrow> error + int list" where
  "py_accumulate_sequential lim t vertex_data accumulator =
     (case accumulator of
        accumulators_min \<Rightarrow> accumulate_sequential lim t vertex_data accumulator_min
      | accumulators_max \<Rightarrow> accumulate_sequential lim t vertex_data accumulator_max
      | accumulators_mean \<Rightarrow> accumulate_sequential lim t vertex_data accumulator_mean
      | accumulators_counter \<Rightarrow> accumulate_sequential lim t vertex_data accumulator_counter
      | accumulators_sum \<Rightarrow> accumulate_sequential lim t vertex_data accumulator_sum
      | accumulators_prod \<Rightarrow> accumulate_sequential lim t vertex_data accumulator_prod
      | accumulators_first \<Rightarrow> accumulate_sequential lim t vertex_data accumulator_first
      | accumulators_last \<Rightarrow> accumulate_sequential lim t vertex_data accumulator_last
      | accumulators_unlisted _ \<Rightarrow> Inl (runtime_error ''Unknown accumulator.''))"

text \<open>The four functors registered with the accumulate-and-combine binding (lines 113-139).\<close>

definition functorMax :: "int \<Rightarrow> int \<Rightarrow> int" where
  "functorMax a b = max a b"

definition functorMin :: "int \<Rightarrow> int \<Rightarrow> int" where
  "functorMin a b = min a b"

definition functorPlus :: "int \<Rightarrow> int \<Rightarrow> int" where
  "functorPlus a b = a + b"

definition functorMultiply :: "int \<Rightarrow> int \<Rightarrow> int" where
  "functorMultiply a b = a * b"

definition py_accumulate_and_combine_sequential ::
  "(int \<Rightarrow> int \<Rightarrow> int) \<Rightarrow> numeric_limits \<Rightarrow> tree \<Rightarrow> int list \<Rightarrow> int list \<Rightarrow> accumulators
     \<Rightarrow> error + int list" where
  "py_accumulate_and_combine_sequential f lim t input vertex_data accumulator =
     (case accumulator of
        accumulators_min \<Rightarrow>
          accumulate_and_combine_sequential lim t input vertex_data accumulator_min f
      | accumulators_max \<Rightarrow>
          accumulate_and_combine_sequential lim t input vertex_data accumulator_max f
      | accumulators_mean \<Rightarrow>
          accumulate_and_combine_sequential lim t input vertex_data accumulator_mean f
      | accumulators_counter \<Rightarrow>
          accumulate_and_combine_sequential lim t input vertex_data accumulator_counter f
      | accumulators_sum \<Rightarrow>
          accumulate_and_combine_sequential lim t input vertex_data accumulator_sum f
      | accumulators_prod \<Rightarrow>
          accumulate_and_combine_sequential lim t input vertex_data accumulator_prod f
      | accumulators_first \<Rightarrow>
          accumulate_and_combine_sequential lim t input vertex_data accumulator_first f
      | accumulators_last \<Rightarrow>
          accumulate_and_combine_sequential lim t input vertex_data accumulator_last f
      | accumulators_unlisted _ \<Rightarrow> Inl (runtime_error ''Unknown accumulator.''))"

text \<open>
  The binding of the parallel propagation (lines 226-233): a condition array of
  dimension 0, which is the default argument, selects the form without condition.
\<close>

definition py_propagate_parallel :: "tree \<Rightarrow> int list \<Rightarrow> bool xarray \<Rightarrow> error + int list" where
  "py_propagate_parallel t input condition =
     (if dimension condition = 0 then propagate_parallel t input
      else propagate_parallel_condition t input condition)"

text \<open>
  The default argument of the binding (line 237): a default-constructed array, which has
  no axis and a single element.
\<close>

definition default_condition :: "bool xarray" where
  "default_condition = \<lparr>shape = [], storage = [False]\<rparr>"

text \<open>The tree of the accumulation scenario: leaves 0-3, 4 above 0 and 1, 5 above 2 and 3, root 6.\<close>

definition scenario_tree :: tree where
  "scenario_tree = \<lparr>parents = [4, 4, 5, 5, 6, 6, 6], num_leaves = 4\<rparr>"

section \<open>Lowest common ancestor\<close>

text \<open>
  Modelled from the spec: the query structure is not among the sources, only its binding
  is. Its visible contract is the query: the deepest vertex that is an ancestor of both
  arguments, a vertex being an ancestor of itself; an index outside the vertices fails
  with an out-of-range error. The structure is built once from a tree.
\<close>

datatype lca_fast = LCAFast tree

fun ancestors_from :: "nat \<Rightarrow> tree \<Rightarrow> nat \<Rightarrow> nat list" where
  "ancestors_from 0 t v = [v]"
| "ancestors_from (Suc k) t v =
     (if parent v t = v then [v] else v # ancestors_from k t (parent v t))"

definition ancestors :: "nat \<Rightarrow> tree \<Rightarrow> nat list" where
  "ancestors v t = ancestors_from (num_vertices_tree t) t v"

definition depth :: "nat \<Rightarrow> tree \<Rightarrow> nat" where
  "depth v t = length (ancestors v t) - 1"

definition common_ancestors :: "nat \<Rightarrow> nat \<Rightarrow> tree \<Rightarrow> nat list" where
  "common_ancestors v1 v2 t =
     filter (\<lambda>a. a \<in> set (ancestors v1 t) \<and> a \<in> set (ancestors v2 t)) [0..<num_vertices_tree t]"

definition deepest :: "tree \<Rightarrow> nat list \<Rightarrow> nat" where
  "deepest t xs = fold (\<lambda>a best. if depth best t < depth a t then a else best) xs (root t)"

fun lca :: "lca_fast \<Rightarrow> nat \<Rightarrow> nat \<Rightarrow> error + nat" where
  "lca (LCAFast t) v1 v2 =
     (if num_vertices_tree t \<le> v1 \<or> num_vertices_tree t \<le> v2 then Inl out_of_range
      else Inr (deepest t (common_ancestors v1 v2 t)))"

text \<open>The binding of the query (py\_lca\_fast.cpp, line 25) passes its arguments on.\<close>

definition py_lca :: "lca_fast \<Rightarrow> nat \<Rightarrow> nat \<Rightarrow> error + nat" where
  "py_lca l v1 v2 = lca l v1 v2"

section \<open>Specification of the bindings and of the accumulation\<close>

text \<open>A selector is listed when it is one of the eight members of the enumeration.\<close>

definition listed :: "accumulators \<Rightarrow> bool" where
  "listed accumulator = (case accumulator of accumulators_unlisted _ \<Rightarrow> False | _ \<Rightarrow> True)"

text \<open>
  The invariant of the sequential accumulation with the sum, when the vertices below \<open>k\<close>
  are done: the leaves hold the input, each internal vertex below \<open>k\<close> holds the sum of
  its children, and the values of the vertices below \<open>k\<close> whose parent is not below \<open>k\<close>
  add up to the sum of the leaf values.
\<close>

definition accumulate_inv :: "tree \<Rightarrow> int list \<Rightarrow> nat \<Rightarrow> int list \<Rightarrow> bool" where
  "accumulate_inv t leaf_values k out =
     (length out = num_vertices_tree t \<and>
      (\<forall>v<num_leaves t. out ! v = leaf_values ! v) \<and>
      (\<forall>v<k. num_leaves t \<le> v \<longrightarrow> out ! v = sum_list (map (\<lambda>c. out ! c) (children v t))) \<and>
      (\<Sum>v\<in>{v. v < k \<and> k \<le> parent v t}. out ! v) = sum_list leaf_values)"
section \<open>Results on the test scenario\<close>

text \<open>
  C4, as stated, fails. The path graph on 16 vertices has 15 edges, so the array of 14
  weights is rejected by the size assertion; and when the 14 weighted edges
  \<open>0-1, ..., 13-14\<close> are put on 16 vertices, the labelling has 9 distinct labels, not 5.
  The array has 7 non-zero entries, not 4.
\<close>

theorem scenario_16_vertices_counterexample:
  "graph_cut_2_labelisation (path_graph 16) (array_1d scenario_weights) =
     Some (Inl (runtime_error ''Edge weights size does not match graph number of edges.''))
   \<and> graph_cut_2_labelisation \<lparr>num_vertices = 16, edges = edges (path_graph 15)\<rparr>
        (array_1d scenario_weights) =
     Some (Inr [1, 2, 2, 2, 3, 4, 4, 5, 5, 6, 6, 7, 7, 8, 8, 9])
   \<and> card (set [1, 2, 2, 2, 3, 4, 4, 5, 5, 6, 6, 7, 7, 8, 8, 9 :: int]) \<noteq> 5
   \<and> length (filter (\<lambda>w. w \<noteq> 0) scenario_weights) \<noteq> 4"
  by code_simp

text \<open>
  C4, amended: on the path graph of the test (15 vertices, 14 edges) with the weights
  \<open>[3,0,0,1,3,0,1,0,2,0,1,0,3,0]\<close> the labelling is \<open>[1,2,2,2,3,4,4,5,5,6,6,7,7,8,8]\<close>:
  8 distinct labels, and the labels of the endpoints of edge \<open>i\<close> differ exactly when
  weight \<open>i\<close> is non-zero, which happens at the 7 indices 0, 3, 4, 6, 8, 10, 12.
\<close>

theorem scenario_15_vertices_labels:
  "graph_cut_2_labelisation (path_graph 15) (array_1d scenario_weights) =
     Some (Inr [1, 2, 2, 2, 3, 4, 4, 5, 5, 6, 6, 7, 7, 8, 8])
   \<and> card (set [1, 2, 2, 2, 3, 4, 4, 5, 5, 6, 6, 7, 7, 8, 8 :: int]) = 8
   \<and> map (\<lambda>i. [1, 2, 2, 2, 3, 4, 4, 5, 5, 6, 6, 7, 7, 8, 8 :: int] ! i \<noteq>
               [1, 2, 2, 2, 3, 4, 4, 5, 5, 6, 6, 7, 7, 8, 8] ! (i + 1)) [0..<14] =
     map (\<lambda>w. w \<noteq> 0) scenario_weights
   \<and> filter (\<lambda>i. scenario_weights ! i \<noteq> 0) [0..<14] = [0, 3, 4, 6, 8, 10, 12]"
  by code_simp

section \<open>Precondition failures\<close>

text \<open>
  C7: when the edge-weight array is not one-dimensional, or when its number of elements
  differs from the number of edges of the graph, the call fails with an error. The two
  assertions come before the label array exists, so the result is the error alone,
  whatever the graph and the weights are.
\<close>

theorem graph_cut_2_labelisation_precondition_errors:
  "(dimension xedge_weights \<noteq> 1 \<longrightarrow>
      graph_cut_2_labelisation graph xedge_weights =
        Some (Inl (runtime_error ''Edge weights must be scalar.'')))
   \<and> (dimension xedge_weights = 1 \<and> xsize xedge_weights \<noteq> num_edges graph \<longrightarrow>
      graph_cut_2_labelisation graph xedge_weights =
        Some (Inl (runtime_error ''Edge weights size does not match graph number of edges.'')))"
  by (auto simp: graph_cut_2_labelisation_def)

theorem graph_cut_2_labelisation_precondition_errors_witness:
  "dimension \<lparr>shape = [2, 1], storage = [0, 1 :: int]\<rparr> \<noteq> 1
   \<and> graph_cut_2_labelisation (path_graph 3) \<lparr>shape = [2, 1], storage = [0, 1 :: int]\<rparr> =
       Some (Inl (runtime_error ''Edge weights must be scalar.''))
   \<and> dimension (array_1d [0, 1, 0 :: int]) = 1
   \<and> xsize (array_1d [0, 1, 0 :: int]) \<noteq> num_edges (path_graph 3)
   \<and> graph_cut_2_labelisation (path_graph 3) (array_1d [0, 1, 0 :: int]) =
       Some (Inl (runtime_error ''Edge weights size does not match graph number of edges.''))"
proof -
  have d2: "dimension \<lparr>shape = [2, 1], storage = [0, 1 :: int]\<rparr> \<noteq> 1"
    by (simp add: dimension_def)
  have d1: "dimension (array_1d [0, 1, 0 :: int]) = 1"
    by (simp add: dimension_def array_1d_def)
  have s: "xsize (array_1d [0, 1, 0 :: int]) \<noteq> num_edges (path_graph 3)"
    by (simp add: xsize_def array_1d_def num_edges_def path_graph_def)
  from graph_cut_2_labelisation_precondition_errors
         [of "\<lparr>shape = [2, 1], storage = [0, 1 :: int]\<rparr>" "path_graph 3"]
       graph_cut_2_labelisation_precondition_errors
         [of "array_1d [0, 1, 0 :: int]" "path_graph 3"]
       d2 d1 s
  show ?thesis by blast
qed

section \<open>Dependence on the zero pattern only\<close>

lemma out_edge_index_lt:
  "i \<in> set (out_edge_index_iterator v graph) \<Longrightarrow> i < num_edges graph"
  by (simp add: out_edge_index_iterator_def)

lemma visit_edge_zero_pattern:
  assumes "(ws ! i = 0) = (ws' ! i = 0)"
  shows "visit_edge graph ws c cv i st = visit_edge graph ws' c cv i st"
  using assms by (simp add: visit_edge_def split: prod.splits)

lemma fold_visit_edge_zero_pattern:
  assumes "\<forall>i<num_edges graph. (ws ! i = 0) = (ws' ! i = 0)"
  shows "fold (visit_edge graph ws c cv) (out_edge_index_iterator cv graph) st =
         fold (visit_edge graph ws' c cv) (out_edge_index_iterator cv graph) st"
proof (rule fold_cong)
  fix i assume "i \<in> set (out_edge_index_iterator cv graph)"
  then have "i < num_edges graph" by (rule out_edge_index_lt)
  with assms have "(ws ! i = 0) = (ws' ! i = 0)" by simp
  then show "visit_edge graph ws c cv i = visit_edge graph ws' c cv i"
    by (intro ext visit_edge_zero_pattern)
qed simp_all

lemma explore_zero_pattern_Some:
  assumes "explore graph ws c labels stack = Some y"
    and "\<forall>i<num_edges graph. (ws ! i = 0) = (ws' ! i = 0)"
  shows "explore graph ws' c labels stack = Some y"
  using assms
proof (induction graph ws c labels stack y rule: explore.raw_induct[rotated 1, consumes 1])
  case (1 explore' graph ws c labels stack y)
  show ?case
  proof (cases stack)
    case Nil
    with 1(2) show ?thesis by (subst explore.simps) simp
  next
    case (Cons cv rest)
    obtain l' s' where f: "fold (visit_edge graph ws c cv) (out_edge_index_iterator cv graph) (labels, rest) = (l', s')"
      by (cases "fold (visit_edge graph ws c cv) (out_edge_index_iterator cv graph) (labels, rest)")
    with 1(2) Cons have "explore' graph ws c l' s' = Some y" by simp
    then have "explore graph ws' c l' s' = Some y" using 1(1) 1(3) by blast
    moreover have "fold (visit_edge graph ws' c cv) (out_edge_index_iterator cv graph) (labels, rest) = (l', s')"
      using f fold_visit_edge_zero_pattern[OF 1(3)] by metis
    ultimately show ?thesis using Cons by (subst explore.simps) simp
  qed
qed

lemma explore_zero_pattern:
  assumes "\<forall>i<num_edges graph. (ws ! i = 0) = (ws' ! i = 0)"
  shows "explore graph ws c labels stack = explore graph ws' c labels stack"
proof (cases "explore graph ws c labels stack")
  case None
  show ?thesis
  proof (cases "explore graph ws' c labels stack")
    case None
    with \<open>explore graph ws c labels stack = None\<close> show ?thesis by simp
  next
    case (Some y)
    from assms have "\<forall>i<num_edges graph. (ws' ! i = 0) = (ws ! i = 0)" by simp
    from explore_zero_pattern_Some[OF Some this] None show ?thesis by simp
  qed
next
  case (Some y)
  from explore_zero_pattern_Some[OF Some assms] Some show ?thesis by simp
qed

lemma scan_zero_pattern:
  assumes "\<forall>i<num_edges graph. (ws ! i = 0) = (ws' ! i = 0)"
  shows "scan graph ws vs st = scan graph ws' vs st"
proof (induction vs arbitrary: st)
  case Nil
  show ?case by simp
next
  case (Cons v vs)
  obtain labels c where st: "st = (labels, c)" by (cases st)
  show ?case
    unfolding st scan.simps explore_zero_pattern[OF assms, of "c + 1" "labels[v := c + 1]" "[v]"]
    by (simp add: Cons.IH split: option.splits)
qed

text \<open>
  C6: the labelling depends on the edge weights only through their zero pattern. For two
  well-formed arrays of the same shape (of any two numeric types) that hold zero at
  exactly the same indices, the two calls on the same graph give the same result.
\<close>

theorem graph_cut_2_labelisation_zero_pattern:
  fixes xedge_weights :: "'a::zero xarray" and xedge_weights' :: "'b::zero xarray"
  assumes "shape xedge_weights = shape xedge_weights'"
    and "wf_xarray xedge_weights" and "wf_xarray xedge_weights'"
    and "same_zero_pattern (storage xedge_weights) (storage xedge_weights')"
  shows "graph_cut_2_labelisation graph xedge_weights =
         graph_cut_2_labelisation graph xedge_weights'"
proof (cases "dimension xedge_weights = 1 \<and> num_edges graph = xsize xedge_weights")
  case False
  with assms(1) show ?thesis
    by (auto simp: graph_cut_2_labelisation_def dimension_def xsize_def)
next
  case True
  with assms(2) have len: "length (storage xedge_weights) = num_edges graph"
    by (simp add: wf_xarray_def)
  from assms(4) have "\<forall>i<length (storage xedge_weights).
      (storage xedge_weights ! i = 0) = (storage xedge_weights' ! i = 0)"
    by (simp add: same_zero_pattern_def list_all_iff)
  with len have pat: "\<forall>i<num_edges graph.
      (storage xedge_weights ! i = 0) = (storage xedge_weights' ! i = 0)" by simp
  from True assms(1) show ?thesis
    by (simp add: graph_cut_2_labelisation_def dimension_def xsize_def label_vertices_def
        scan_zero_pattern[OF pat])
qed

theorem graph_cut_2_labelisation_zero_pattern_witness:
  "shape (array_1d [0, 5, 0 :: int]) = shape (array_1d [0, 1, 0 :: nat])
   \<and> wf_xarray (array_1d [0, 5, 0 :: int]) \<and> wf_xarray (array_1d [0, 1, 0 :: nat])
   \<and> same_zero_pattern (storage (array_1d [0, 5, 0 :: int])) (storage (array_1d [0, 1, 0 :: nat]))
   \<and> graph_cut_2_labelisation (path_graph 4) (array_1d [0, 5, 0 :: int]) =
       graph_cut_2_labelisation (path_graph 4) (array_1d [0, 1, 0 :: nat])"
proof -
  have a: "shape (array_1d [0, 5, 0 :: int]) = shape (array_1d [0, 1, 0 :: nat])"
    by (simp add: array_1d_def)
  have b: "wf_xarray (array_1d [0, 5, 0 :: int])" "wf_xarray (array_1d [0, 1, 0 :: nat])"
    by (simp_all add: array_1d_def wf_xarray_def xsize_def)
  have c: "same_zero_pattern (storage (array_1d [0, 5, 0 :: int])) (storage (array_1d [0, 1, 0 :: nat]))"
    by (simp add: array_1d_def same_zero_pattern_def upt_rec)
  from graph_cut_2_labelisation_zero_pattern[OF a b c, of "path_graph 4"] a b c
  show ?thesis by simp
qed

section \<open>Correctness of the flood fill\<close>

subsection \<open>Adjacency and connectivity\<close>

lemma uncut_adjacent_sym: "(u, v) \<in> uncut_adjacent graph ws \<Longrightarrow> (v, u) \<in> uncut_adjacent graph ws"
  by (auto simp: uncut_adjacent_def)

lemma uncut_adjacent_vertices:
  assumes "wf_graph graph" and "(u, v) \<in> uncut_adjacent graph ws"
  shows "u < num_vertices graph \<and> v < num_vertices graph"
proof -
  from assms(2) obtain i where i: "i < num_edges graph"
    and e: "edge i graph = (u, v) \<or> edge i graph = (v, u)"
    by (auto simp: uncut_adjacent_def)
  from i have "edges graph ! i \<in> set (edges graph)" by (simp add: num_edges_def)
  with assms(1) have "fst (edge i graph) < num_vertices graph \<and> snd (edge i graph) < num_vertices graph"
    by (simp add: wf_graph_def list_all_iff edge_def)
  with e show ?thesis by auto
qed

lemma out_edge_adjacent:
  assumes "i \<in> set (out_edge_index_iterator cv graph)" and "ws ! i = 0"
  shows "(cv, other_vertex (edge i graph) cv) \<in> uncut_adjacent graph ws"
proof -
  from assms(1) have i: "i < num_edges graph"
    and inc: "fst (edge i graph) = cv \<or> snd (edge i graph) = cv"
    by (auto simp: out_edge_index_iterator_def)
  show ?thesis
  proof (cases "fst (edge i graph) = cv")
    case True
    then have "edge i graph = (cv, other_vertex (edge i graph) cv)"
      by (simp add: other_vertex_def prod_eq_iff)
    with i assms(2) show ?thesis unfolding uncut_adjacent_def by blast
  next
    case False
    with inc have "edge i graph = (other_vertex (edge i graph) cv, cv)"
      by (simp add: other_vertex_def prod_eq_iff)
    with i assms(2) show ?thesis unfolding uncut_adjacent_def by blast
  qed
qed

lemma adjacent_out_edge:
  assumes "(cv, v) \<in> uncut_adjacent graph ws"
  shows "\<exists>i\<in>set (out_edge_index_iterator cv graph). ws ! i = 0 \<and> other_vertex (edge i graph) cv = v"
proof -
  from assms obtain i where i: "i < num_edges graph" and z: "ws ! i = 0"
    and e: "edge i graph = (cv, v) \<or> edge i graph = (v, cv)"
    by (auto simp: uncut_adjacent_def)
  from i e have "i \<in> set (out_edge_index_iterator cv graph)"
    by (auto simp: out_edge_index_iterator_def)
  moreover have "other_vertex (edge i graph) cv = v"
    using e
  proof
    assume "edge i graph = (cv, v)"
    then show ?thesis by (simp add: other_vertex_def)
  next
    assume "edge i graph = (v, cv)"
    then show ?thesis by (simp add: other_vertex_def)
  qed
  ultimately show ?thesis using z by blast
qed

lemma connected_refl: "connected graph ws u u"
  by (simp add: connected_def)

lemma connected_trans: "connected graph ws u v \<Longrightarrow> connected graph ws v w \<Longrightarrow> connected graph ws u w"
  by (simp add: connected_def)

lemma connected_sym: "connected graph ws u v \<Longrightarrow> connected graph ws v u"
proof -
  have "sym (uncut_adjacent graph ws)"
    by (rule symI) (rule uncut_adjacent_sym)
  then have "sym ((uncut_adjacent graph ws)\<^sup>*)" by (rule sym_rtrancl)
  then show "connected graph ws u v \<Longrightarrow> connected graph ws v u"
    by (simp add: connected_def sym_def)
qed

lemma connected_step: "connected graph ws u v \<Longrightarrow> (v, w) \<in> uncut_adjacent graph ws \<Longrightarrow> connected graph ws u w"
  by (simp add: connected_def)

lemma connected_vertex:
  assumes "wf_graph graph" and "connected graph ws u v" and "u < num_vertices graph"
  shows "v < num_vertices graph"
  using assms(2)[unfolded connected_def] assms(3)
  by (induction rule: rtrancl_induct) (auto dest: uncut_adjacent_vertices[OF assms(1)])

subsection \<open>One pass over the out-edges of a vertex\<close>

lemma count_unset_update:
  assumes "i < length L" and "L ! i = invalid_index" and "c \<noteq> invalid_index"
  shows "Suc (count_unset (L[i := c])) = count_unset L"
  using assms
proof (induction L arbitrary: i)
  case Nil
  then show ?case by simp
next
  case (Cons x xs)
  show ?case
  proof (cases i)
    case 0
    with Cons.prems show ?thesis by (simp add: count_unset_def)
  next
    case (Suc j)
    with Cons.prems have "Suc (count_unset (xs[j := c])) = count_unset xs"
      by (intro Cons.IH) simp_all
    with Suc show ?thesis by (simp add: count_unset_def)
  qed
qed

lemma visit_post_refl: "visit_post graph ws c cv L S L S"
  by (simp add: visit_post_def)

lemma visit_post_trans:
  assumes c: "c \<noteq> invalid_index"
    and a: "visit_post graph ws c cv L S L1 S1"
    and b: "visit_post graph ws c cv L1 S1 L2 S2"
  shows "visit_post graph ws c cv L S L2 S2"
proof -
  from a have len1: "length L1 = length L"
    and ch1: "\<And>v. v < length L \<Longrightarrow> L1 ! v = L ! v \<or>
          (L ! v = invalid_index \<and> L1 ! v = c \<and> (cv, v) \<in> uncut_adjacent graph ws)"
    by (simp_all add: visit_post_def)
  from a obtain P1 where P1: "S1 = P1 @ S"
    "\<And>v. v \<in> set P1 \<Longrightarrow> v < length L \<and> L ! v = invalid_index \<and> L1 ! v = c"
    "\<And>v. v < length L \<Longrightarrow> L ! v = invalid_index \<Longrightarrow> L1 ! v \<noteq> invalid_index \<Longrightarrow> v \<in> set P1"
    "count_unset L1 + length P1 = count_unset L"
    unfolding visit_post_def by blast
  from b have len2: "length L2 = length L1"
    and ch2: "\<And>v. v < length L1 \<Longrightarrow> L2 ! v = L1 ! v \<or>
          (L1 ! v = invalid_index \<and> L2 ! v = c \<and> (cv, v) \<in> uncut_adjacent graph ws)"
    by (simp_all add: visit_post_def)
  from b obtain P2 where P2: "S2 = P2 @ S1"
    "\<And>v. v \<in> set P2 \<Longrightarrow> v < length L1 \<and> L1 ! v = invalid_index \<and> L2 ! v = c"
    "\<And>v. v < length L1 \<Longrightarrow> L1 ! v = invalid_index \<Longrightarrow> L2 ! v \<noteq> invalid_index \<Longrightarrow> v \<in> set P2"
    "count_unset L2 + length P2 = count_unset L1"
    unfolding visit_post_def by blast
  have 1: "length L2 = length L" using len1 len2 by simp
  have 2: "\<forall>v<length L. L2 ! v = L ! v \<or>
          (L ! v = invalid_index \<and> L2 ! v = c \<and> (cv, v) \<in> uncut_adjacent graph ws)"
    using ch1 ch2 len1 c by metis
  have 3: "S2 = (P2 @ P1) @ S" using P1(1) P2(1) by simp
  have 4: "\<forall>v\<in>set (P2 @ P1). v < length L \<and> L ! v = invalid_index \<and> L2 ! v = c"
  proof
    fix v assume "v \<in> set (P2 @ P1)"
    then consider "v \<in> set P2" | "v \<in> set P1" by auto
    then show "v < length L \<and> L ! v = invalid_index \<and> L2 ! v = c"
    proof cases
      case 1
      with P2(2) have "v < length L1" "L1 ! v = invalid_index" "L2 ! v = c" by auto
      with ch1[of v] len1 c show ?thesis by auto
    next
      case 2
      with P1(2) have "v < length L" "L ! v = invalid_index" "L1 ! v = c" by auto
      with ch2[of v] len1 c show ?thesis by auto
    qed
  qed
  have 5: "\<forall>v<length L. L ! v = invalid_index \<and> L2 ! v \<noteq> invalid_index \<longrightarrow> v \<in> set (P2 @ P1)"
  proof (intro allI impI)
    fix v assume v: "v < length L" and h: "L ! v = invalid_index \<and> L2 ! v \<noteq> invalid_index"
    show "v \<in> set (P2 @ P1)"
    proof (cases "L1 ! v = invalid_index")
      case True
      with P2(3)[of v] v len1 h show ?thesis by simp
    next
      case False
      with P1(3)[of v] v h show ?thesis by simp
    qed
  qed
  have 6: "count_unset L2 + length (P2 @ P1) = count_unset L"
    using P1(4) P2(4) by simp
  show ?thesis unfolding visit_post_def using 1 2 3 4 5 6 by blast
qed

lemma visit_edge_post:
  assumes wf: "wf_graph graph" and len: "length L = num_vertices graph"
    and c: "c \<noteq> invalid_index"
    and i: "i \<in> set (out_edge_index_iterator cv graph)"
    and v: "visit_edge graph ws c cv i (L, S) = (L1, S1)"
  shows "visit_post graph ws c cv L S L1 S1"
    and "ws ! i = 0 \<Longrightarrow> L1 ! other_vertex (edge i graph) cv \<noteq> invalid_index"
proof -
  let ?n = "other_vertex (edge i graph) cv"
  have both: "visit_post graph ws c cv L S L1 S1 \<and> (ws ! i = 0 \<longrightarrow> L1 ! ?n \<noteq> invalid_index)"
  proof (cases "ws ! i = 0 \<and> L ! ?n = invalid_index")
    case False
    with v have "L1 = L" "S1 = S" by (auto simp: visit_edge_def Let_def split: if_splits)
    with False show ?thesis by (auto simp: visit_post_refl)
  next
    case True
    with v have L1: "L1 = L[?n := c]" and S1: "S1 = ?n # S"
      by (auto simp: visit_edge_def Let_def)
    from True i have adj: "(cv, ?n) \<in> uncut_adjacent graph ws"
      by (intro out_edge_adjacent) simp_all
    with wf len have n: "?n < length L" by (auto dest: uncut_adjacent_vertices)
    have cnt: "count_unset L1 + length [?n] = count_unset L"
      using count_unset_update[OF n _ c] True L1 by simp
    have "visit_post graph ws c cv L S L1 S1"
      unfolding visit_post_def
    proof (intro conjI)
      show "length L1 = length L" by (simp add: L1)
      show "\<forall>v<length L. L1 ! v = L ! v \<or>
          (L ! v = invalid_index \<and> L1 ! v = c \<and> (cv, v) \<in> uncut_adjacent graph ws)"
        using True adj n by (auto simp: L1 nth_list_update)
      show "\<exists>P. S1 = P @ S \<and>
          (\<forall>v\<in>set P. v < length L \<and> L ! v = invalid_index \<and> L1 ! v = c) \<and>
          (\<forall>v<length L. L ! v = invalid_index \<and> L1 ! v \<noteq> invalid_index \<longrightarrow> v \<in> set P) \<and>
          count_unset L1 + length P = count_unset L"
      proof (intro exI[of _ "[?n]"] conjI)
        show "S1 = [?n] @ S" by (simp add: S1)
        show "\<forall>v\<in>set [?n]. v < length L \<and> L ! v = invalid_index \<and> L1 ! v = c"
          using True n by (simp add: L1)
        show "\<forall>v<length L. L ! v = invalid_index \<and> L1 ! v \<noteq> invalid_index \<longrightarrow> v \<in> set [?n]"
          using n by (auto simp: L1 nth_list_update split: if_splits)
        show "count_unset L1 + length [?n] = count_unset L" by (rule cnt)
      qed
    qed
    moreover have "L1 ! ?n \<noteq> invalid_index" using n c by (simp add: L1)
    ultimately show ?thesis by simp
  qed
  from both show "visit_post graph ws c cv L S L1 S1" by simp
  from both show "ws ! i = 0 \<Longrightarrow> L1 ! ?n \<noteq> invalid_index" by simp
qed

lemma fold_visit_post:
  assumes wf: "wf_graph graph" and c: "c \<noteq> invalid_index"
  shows "length L = num_vertices graph \<Longrightarrow>
     set es \<subseteq> set (out_edge_index_iterator cv graph) \<Longrightarrow>
     fold (visit_edge graph ws c cv) es (L, S) = (L', S') \<Longrightarrow>
     visit_post graph ws c cv L S L' S' \<and>
     (\<forall>i\<in>set es. ws ! i = 0 \<longrightarrow> L' ! other_vertex (edge i graph) cv \<noteq> invalid_index)"
proof (induction es arbitrary: L S)
  case Nil
  then show ?case by (simp add: visit_post_refl)
next
  case (Cons i es)
  obtain L1 S1 where step: "visit_edge graph ws c cv i (L, S) = (L1, S1)"
    by (cases "visit_edge graph ws c cv i (L, S)")
  from Cons.prems(2) have i: "i \<in> set (out_edge_index_iterator cv graph)" by simp
  note p1 = visit_edge_post[OF wf Cons.prems(1) c i step]
  from p1(1) have len1: "length L1 = num_vertices graph"
    using Cons.prems(1) by (simp add: visit_post_def)
  from Cons.prems(3) step have rest: "fold (visit_edge graph ws c cv) es (L1, S1) = (L', S')"
    by simp
  from Cons.prems(2) have sub: "set es \<subseteq> set (out_edge_index_iterator cv graph)" by simp
  from Cons.IH[OF len1 sub rest]
  have p2: "visit_post graph ws c cv L1 S1 L' S'"
    and z2: "\<forall>j\<in>set es. ws ! j = 0 \<longrightarrow> L' ! other_vertex (edge j graph) cv \<noteq> invalid_index"
    by simp_all
  have post: "visit_post graph ws c cv L S L' S'"
    by (rule visit_post_trans[OF c p1(1) p2])
  have "L' ! other_vertex (edge i graph) cv \<noteq> invalid_index" if z: "ws ! i = 0"
  proof -
    let ?n = "other_vertex (edge i graph) cv"
    from i z have "(cv, ?n) \<in> uncut_adjacent graph ws" by (rule out_edge_adjacent)
    with wf len1 have n: "?n < length L1" by (auto dest: uncut_adjacent_vertices)
    from p1(2)[OF z] have "L1 ! ?n \<noteq> invalid_index" .
    with p2 n show ?thesis unfolding visit_post_def by metis
  qed
  with z2 post show ?case by simp
qed

subsection \<open>The exploration of one component\<close>

lemma explore_inv_closed:
  assumes wf: "wf_graph graph" and inv: "explore_inv graph ws s c L0 L []"
    and conn: "connected graph ws s v"
  shows "L ! v = c"
  using conn[unfolded connected_def]
proof (induction rule: rtrancl_induct)
  case base
  from inv show ?case by (simp add: explore_inv_def)
next
  case (step u v)
  from step(1) have su: "connected graph ws s u" by (simp add: connected_def)
  from inv have "s < num_vertices graph" by (simp add: explore_inv_def)
  with wf su have "u < num_vertices graph" by (rule connected_vertex)
  with inv su step(3) step(2) show ?case unfolding explore_inv_def by simp
qed

lemma explore_inv_step:
  assumes wf: "wf_graph graph" and c: "c \<noteq> invalid_index"
    and inv: "explore_inv graph ws s c L0 L (cv # rest)"
    and f: "fold (visit_edge graph ws c cv) (out_edge_index_iterator cv graph) (L, rest) = (L', S')"
  shows "explore_inv graph ws s c L0 L' S'"
    and "2 * count_unset L' + length S' < 2 * count_unset L + length (cv # rest)"
proof -
  let ?n = "num_vertices graph"
  let ?A = "uncut_adjacent graph ws"
  from inv have len: "length L = ?n" and s: "s < ?n" and Ls: "L ! s = c"
    and out: "\<And>v. v < ?n \<Longrightarrow> \<not> connected graph ws s v \<Longrightarrow> L ! v = L0 ! v"
    and ins: "\<And>v. v < ?n \<Longrightarrow> connected graph ws s v \<Longrightarrow> L ! v = c \<or> L ! v = invalid_index"
    and stk: "\<And>v. v \<in> set (cv # rest) \<Longrightarrow> v < ?n \<and> connected graph ws s v \<and> L ! v = c"
    and don: "\<And>u v. u < ?n \<Longrightarrow> connected graph ws s u \<Longrightarrow> L ! u = c \<Longrightarrow> u \<notin> set (cv # rest)
                \<Longrightarrow> (u, v) \<in> ?A \<Longrightarrow> L ! v = c"
    unfolding explore_inv_def by blast+
  from stk[of cv] have cv: "cv < ?n" "connected graph ws s cv" "L ! cv = c" by simp_all
  from fold_visit_post[OF wf c len subset_refl f]
  have post: "visit_post graph ws c cv L rest L' S'"
    and nb: "\<And>i. i \<in> set (out_edge_index_iterator cv graph) \<Longrightarrow> ws ! i = 0
               \<Longrightarrow> L' ! other_vertex (edge i graph) cv \<noteq> invalid_index"
    by blast+
  from post have len': "length L' = ?n"
    and ch: "\<And>v. v < ?n \<Longrightarrow> L' ! v = L ! v \<or>
          (L ! v = invalid_index \<and> L' ! v = c \<and> (cv, v) \<in> ?A)"
    using len by (simp_all add: visit_post_def)
  from post obtain P where P: "S' = P @ rest"
    "\<And>v. v \<in> set P \<Longrightarrow> v < ?n \<and> L ! v = invalid_index \<and> L' ! v = c"
    "\<And>v. v < ?n \<Longrightarrow> L ! v = invalid_index \<Longrightarrow> L' ! v \<noteq> invalid_index \<Longrightarrow> v \<in> set P"
    "count_unset L' + length P = count_unset L"
    unfolding visit_post_def len by blast
  have keep: "L' ! v = c" if "v < ?n" "L ! v = c" for v
    using ch[OF that(1)] that(2) c by auto
  have nbr: "connected graph ws s v" if "(cv, v) \<in> ?A" for v
    using cv(2) that by (rule connected_step)
  have 1: "\<forall>v<?n. \<not> connected graph ws s v \<longrightarrow> L' ! v = L0 ! v"
  proof (intro allI impI)
    fix v assume v: "v < ?n" and nc: "\<not> connected graph ws s v"
    from ch[OF v] nc nbr have "L' ! v = L ! v" by blast
    with out[OF v nc] show "L' ! v = L0 ! v" by simp
  qed
  have 2: "\<forall>v<?n. connected graph ws s v \<longrightarrow> L' ! v = c \<or> L' ! v = invalid_index"
  proof (intro allI impI)
    fix v assume v: "v < ?n" and cn: "connected graph ws s v"
    from ch[OF v] ins[OF v cn] show "L' ! v = c \<or> L' ! v = invalid_index" by auto
  qed
  have 3: "\<forall>v\<in>set S'. v < ?n \<and> connected graph ws s v \<and> L' ! v = c"
  proof
    fix v assume "v \<in> set S'"
    then consider "v \<in> set P" | "v \<in> set rest" by (auto simp: P(1))
    then show "v < ?n \<and> connected graph ws s v \<and> L' ! v = c"
    proof cases
      case 1
      from P(2)[OF 1] have v: "v < ?n" "L ! v = invalid_index" "L' ! v = c" by simp_all
      with ch[OF v(1)] c have "(cv, v) \<in> ?A" by auto
      with v nbr show ?thesis by simp
    next
      case 2
      then have "v \<in> set (cv # rest)" by simp
      from stk[OF this] keep show ?thesis by simp
    qed
  qed
  have 4: "\<forall>u<?n. connected graph ws s u \<and> L' ! u = c \<and> u \<notin> set S' \<longrightarrow>
          (\<forall>v. (u, v) \<in> ?A \<longrightarrow> L' ! v = c)"
  proof (intro allI impI)
    fix u v assume u: "u < ?n"
      and h: "connected graph ws s u \<and> L' ! u = c \<and> u \<notin> set S'"
      and adj: "(u, v) \<in> ?A"
    from wf adj have v: "v < ?n" by (auto dest: uncut_adjacent_vertices)
    from h adj have sv: "connected graph ws s v" by (auto intro: connected_step)
    show "L' ! v = c"
    proof (cases "u = cv")
      case True
      with adj obtain i where "i \<in> set (out_edge_index_iterator cv graph)" "ws ! i = 0"
        "other_vertex (edge i graph) cv = v"
        using adjacent_out_edge by blast
      with nb have "L' ! v \<noteq> invalid_index" by blast
      with 2 v sv show ?thesis by blast
    next
      case False
      from h have notP: "u \<notin> set P" and notrest: "u \<notin> set rest" by (simp_all add: P(1))
      have "L ! u = c"
      proof (rule ccontr)
        assume ne: "L ! u \<noteq> c"
        with ch[OF u] h have "L ! u = invalid_index" by auto
        moreover from h c have "L' ! u \<noteq> invalid_index" by simp
        ultimately have "u \<in> set P" using P(3)[OF u] by simp
        with notP show False by simp
      qed
      moreover from False notrest have "u \<notin> set (cv # rest)" by simp
      ultimately have "L ! v = c" using don[OF u _ _ _ adj] h by simp
      with keep[OF v] show ?thesis by simp
    qed
  qed
  from keep[OF s Ls] have 5: "L' ! s = c" .
  show "explore_inv graph ws s c L0 L' S'"
    unfolding explore_inv_def using len' s 5 1 2 3 4 by blast
  show "2 * count_unset L' + length S' < 2 * count_unset L + length (cv # rest)"
    using P(4) P(1) by simp
qed

lemma explore_correct:
  assumes wf: "wf_graph graph" and c: "c \<noteq> invalid_index"
  shows "explore_inv graph ws s c L0 L S \<Longrightarrow>
     \<exists>L'. explore graph ws c L S = Some L' \<and> length L' = num_vertices graph \<and>
        (\<forall>v<num_vertices graph. L' ! v = (if connected graph ws s v then c else L0 ! v))"
proof (induction "2 * count_unset L + length S" arbitrary: L S rule: less_induct)
  case less
  show ?case
  proof (cases S)
    case Nil
    have "explore graph ws c L S = Some L"
      by (subst explore.simps) (simp add: Nil)
    moreover from less.prems have "length L = num_vertices graph"
      by (simp add: explore_inv_def)
    moreover have "\<forall>v<num_vertices graph. L ! v = (if connected graph ws s v then c else L0 ! v)"
      using explore_inv_closed[OF wf less.prems[unfolded Nil]] less.prems
      by (simp add: explore_inv_def)
    ultimately show ?thesis by simp
  next
    case (Cons cv rest)
    obtain L1 S1 where f:
      "fold (visit_edge graph ws c cv) (out_edge_index_iterator cv graph) (L, rest) = (L1, S1)"
      by (cases "fold (visit_edge graph ws c cv) (out_edge_index_iterator cv graph) (L, rest)")
    note st = explore_inv_step[OF wf c less.prems[unfolded Cons] f]
    from st(2) have "2 * count_unset L1 + length S1 < 2 * count_unset L + length S"
      by (simp add: Cons)
    from less.hyps[OF this st(1)] obtain L' where
      "explore graph ws c L1 S1 = Some L'" "length L' = num_vertices graph"
      "\<forall>v<num_vertices graph. L' ! v = (if connected graph ws s v then c else L0 ! v)"
      by blast
    moreover have "explore graph ws c L S = explore graph ws c L1 S1"
      by (subst explore.simps) (simp add: Cons f)
    ultimately show ?thesis by simp
  qed
qed

lemma explore_inv_start:
  assumes len: "length L0 = num_vertices graph" and s: "s < num_vertices graph"
    and c: "c \<noteq> invalid_index"
    and fresh: "\<forall>v<num_vertices graph. connected graph ws s v \<longrightarrow> L0 ! v = invalid_index"
  shows "explore_inv graph ws s c L0 (L0[s := c]) [s]"
  unfolding explore_inv_def
proof (intro conjI)
  show "length (L0[s := c]) = num_vertices graph" using len by simp
  show "s < num_vertices graph" by (rule s)
  show "L0[s := c] ! s = c" using len s by simp
  show "\<forall>v<num_vertices graph. \<not> connected graph ws s v \<longrightarrow> L0[s := c] ! v = L0 ! v"
  proof (intro allI impI)
    fix v assume "v < num_vertices graph" and nc: "\<not> connected graph ws s v"
    from nc connected_refl[of graph ws s] have "v \<noteq> s" by auto
    then show "L0[s := c] ! v = L0 ! v" by simp
  qed
  show "\<forall>v<num_vertices graph. connected graph ws s v \<longrightarrow>
          L0[s := c] ! v = c \<or> L0[s := c] ! v = invalid_index"
  proof (intro allI impI)
    fix v assume v: "v < num_vertices graph" "connected graph ws s v"
    show "L0[s := c] ! v = c \<or> L0[s := c] ! v = invalid_index"
    proof (cases "v = s")
      case True
      with len s show ?thesis by simp
    next
      case False
      with fresh v show ?thesis by simp
    qed
  qed
  show "\<forall>v\<in>set [s]. v < num_vertices graph \<and> connected graph ws s v \<and> L0[s := c] ! v = c"
    using s len by (simp add: connected_refl)
  show "\<forall>u<num_vertices graph. connected graph ws s u \<and> L0[s := c] ! u = c \<and> u \<notin> set [s] \<longrightarrow>
          (\<forall>v. (u, v) \<in> uncut_adjacent graph ws \<longrightarrow> L0[s := c] ! v = c)"
  proof (intro allI impI)
    fix u v assume u: "u < num_vertices graph"
      and h: "connected graph ws s u \<and> L0[s := c] ! u = c \<and> u \<notin> set [s]"
    from h have "u \<noteq> s" by simp
    with h have "L0 ! u = c" by simp
    with fresh u h c have False by auto
    then show "L0[s := c] ! v = c" ..
  qed
qed

subsection \<open>The scan over the vertices\<close>

lemma scan_inv_skip:
  assumes inv: "scan_inv graph ws k L cur" and k: "k < num_vertices graph"
    and set: "L ! k \<noteq> invalid_index"
  shows "scan_inv graph ws (Suc k) L cur"
proof -
  from inv k set obtain r0 where r0: "r0 < k" "connected graph ws r0 k"
    unfolding scan_inv_def by blast
  have nf: "\<not> component_first graph ws k"
  proof
    assume "component_first graph ws k"
    moreover from r0(2) have "connected graph ws k r0" by (rule connected_sym)
    ultimately have "k \<le> r0" by (simp add: component_first_def)
    with r0(1) show False by simp
  qed
  have a: "(\<exists>r<Suc k. connected graph ws r v) = (\<exists>r<k. connected graph ws r v)" for v
  proof
    assume "\<exists>r<Suc k. connected graph ws r v"
    then obtain r where r: "r < Suc k" "connected graph ws r v" by blast
    show "\<exists>r<k. connected graph ws r v"
    proof (cases "r = k")
      case True
      with r r0 have "connected graph ws r0 v" by (auto intro: connected_trans)
      with r0(1) show ?thesis by blast
    next
      case False
      with r show ?thesis by (auto simp: less_Suc_eq)
    qed
  next
    assume "\<exists>r<k. connected graph ws r v"
    then show "\<exists>r<Suc k. connected graph ws r v" by (auto simp: less_Suc_eq)
  qed
  have b: "{r. r < Suc k \<and> component_first graph ws r} = {r. r < k \<and> component_first graph ws r}"
    using nf by (auto simp: less_Suc_eq)
  have c: "\<forall>v<num_vertices graph. \<forall>r<Suc k. component_first graph ws r \<and> connected graph ws r v \<longrightarrow>
          L ! v = label_rank graph ws r"
  proof (intro allI impI)
    fix v r assume v: "v < num_vertices graph" and r: "r < Suc k"
      and h: "component_first graph ws r \<and> connected graph ws r v"
    from h nf have "r \<noteq> k" by auto
    with r have "r < k" by simp
    with inv v h show "L ! v = label_rank graph ws r" unfolding scan_inv_def by blast
  qed
  from inv show ?thesis unfolding scan_inv_def a b using c by simp
qed

lemma scan_inv_new:
  assumes inv: "scan_inv graph ws k L cur" and k: "k < num_vertices graph"
    and unset: "L ! k = invalid_index"
    and len': "length L' = num_vertices graph"
    and L': "\<forall>v<num_vertices graph. L' ! v = (if connected graph ws k v then cur + 1 else L ! v)"
  shows "scan_inv graph ws (Suc k) L' (cur + 1)"
proof -
  let ?F = "component_first graph ws"
  from inv have lab: "\<And>v. v < num_vertices graph \<Longrightarrow>
        (L ! v \<noteq> invalid_index) = (\<exists>r<k. connected graph ws r v)"
    and rank: "\<And>v r. v < num_vertices graph \<Longrightarrow> r < k \<Longrightarrow> ?F r \<Longrightarrow> connected graph ws r v \<Longrightarrow>
        L ! v = label_rank graph ws r"
    and cur: "cur = int (card {r. r < k \<and> ?F r})"
    unfolding scan_inv_def by blast+
  from lab[OF k] unset have none: "\<And>r. r < k \<Longrightarrow> \<not> connected graph ws r k" by auto
  have first: "?F k"
    unfolding component_first_def
  proof (intro allI impI)
    fix u assume "connected graph ws k u"
    then have "connected graph ws u k" by (rule connected_sym)
    with none[of u] show "k \<le> u" by (cases "u < k") auto
  qed
  from cur have pos: "cur + 1 \<noteq> invalid_index" by (simp add: invalid_index_def)
  have fin: "finite {r. r < k \<and> ?F r}" by simp
  have "{r. r \<le> k \<and> ?F r} = insert k {r. r < k \<and> ?F r}"
    using first by (auto simp: le_less)
  then have "card {r. r \<le> k \<and> ?F r} = Suc (card {r. r < k \<and> ?F r})"
    using fin by simp
  then have rk: "label_rank graph ws k = cur + 1"
    by (simp add: label_rank_def cur)
  have "{r. r < Suc k \<and> ?F r} = {r. r \<le> k \<and> ?F r}" by (auto simp: less_Suc_eq_le)
  with rk have 4: "cur + 1 = int (card {r. r < Suc k \<and> ?F r})"
    by (simp add: label_rank_def)
  have 2: "\<forall>v<num_vertices graph. (L' ! v \<noteq> invalid_index) = (\<exists>r<Suc k. connected graph ws r v)"
  proof (intro allI impI)
    fix v assume v: "v < num_vertices graph"
    show "(L' ! v \<noteq> invalid_index) = (\<exists>r<Suc k. connected graph ws r v)"
    proof (cases "connected graph ws k v")
      case True
      with L' v pos show ?thesis by auto
    next
      case False
      with L' v have "L' ! v = L ! v" by simp
      moreover from False have "(\<exists>r<Suc k. connected graph ws r v) = (\<exists>r<k. connected graph ws r v)"
        by (auto simp: less_Suc_eq)
      ultimately show ?thesis using lab[OF v] by simp
    qed
  qed
  have 3: "\<forall>v<num_vertices graph. \<forall>r<Suc k. ?F r \<and> connected graph ws r v \<longrightarrow>
          L' ! v = label_rank graph ws r"
  proof (intro allI impI)
    fix v r assume v: "v < num_vertices graph" and r: "r < Suc k"
      and h: "?F r \<and> connected graph ws r v"
    show "L' ! v = label_rank graph ws r"
    proof (cases "r = k")
      case True
      with h L' v rk show ?thesis by simp
    next
      case False
      with r have rk': "r < k" by simp
      have "\<not> connected graph ws k v"
      proof
        assume "connected graph ws k v"
        then have "connected graph ws v k" by (rule connected_sym)
        with h have "connected graph ws r k" by (auto intro: connected_trans)
        with none[OF rk'] show False by simp
      qed
      with L' v have "L' ! v = L ! v" by simp
      with rank[OF v rk'] h show ?thesis by simp
    qed
  qed
  show ?thesis unfolding scan_inv_def using len' 2 3 4 by blast
qed

lemma scan_correct:
  assumes wf: "wf_graph graph"
  shows "k \<le> num_vertices graph \<Longrightarrow> scan_inv graph ws k L cur \<Longrightarrow>
     \<exists>L' cur'. scan graph ws [k..<num_vertices graph] (L, cur) = Some (L', cur') \<and>
        scan_inv graph ws (num_vertices graph) L' cur'"
proof (induction "num_vertices graph - k" arbitrary: k L cur)
  case 0
  then have "k = num_vertices graph" by simp
  with "0.prems" show ?case by simp
next
  case (Suc m)
  then have k: "k < num_vertices graph" by simp
  then have upt: "[k..<num_vertices graph] = k # [Suc k..<num_vertices graph]"
    by (rule upt_conv_Cons)
  from Suc.hyps(2) have m: "m = num_vertices graph - Suc k" by simp
  from k have k': "Suc k \<le> num_vertices graph" by simp
  show ?case
  proof (cases "L ! k = invalid_index")
    case False
    from scan_inv_skip[OF Suc.prems(2) k False]
    have "scan_inv graph ws (Suc k) L cur" .
    from Suc.hyps(1)[OF m k' this] False show ?thesis
      by (simp add: upt)
  next
    case True
    from Suc.prems(2) have len: "length L = num_vertices graph"
      and lab: "\<And>v. v < num_vertices graph \<Longrightarrow>
        (L ! v \<noteq> invalid_index) = (\<exists>r<k. connected graph ws r v)"
      and cur: "cur = int (card {r. r < k \<and> component_first graph ws r})"
      unfolding scan_inv_def by blast+
    from cur have c: "cur + 1 \<noteq> invalid_index" by (simp add: invalid_index_def)
    have fresh: "\<forall>v<num_vertices graph. connected graph ws k v \<longrightarrow> L ! v = invalid_index"
    proof (intro allI impI)
      fix v assume v: "v < num_vertices graph" and kv: "connected graph ws k v"
      show "L ! v = invalid_index"
      proof (rule ccontr)
        assume "L ! v \<noteq> invalid_index"
        with lab[OF v] obtain r where r: "r < k" "connected graph ws r v" by blast
        from kv have "connected graph ws v k" by (rule connected_sym)
        with r have "connected graph ws r k" by (auto intro: connected_trans)
        with lab[OF k] r(1) True show False by blast
      qed
    qed
    from explore_correct[OF wf c explore_inv_start[OF len k c fresh]]
    obtain L1 where ex: "explore graph ws (cur + 1) (L[k := cur + 1]) [k] = Some L1"
      and len1: "length L1 = num_vertices graph"
      and L1: "\<forall>v<num_vertices graph. L1 ! v = (if connected graph ws k v then cur + 1 else L ! v)"
      by blast
    from scan_inv_new[OF Suc.prems(2) k True len1 L1]
    have "scan_inv graph ws (Suc k) L1 (cur + 1)" .
    from Suc.hyps(1)[OF m k' this] True ex show ?thesis
      by (simp add: upt)
  qed
qed

lemma scan_inv_init: "scan_inv graph ws 0 (replicate (num_vertices graph) invalid_index) 0"
  by (simp add: scan_inv_def)

lemma label_vertices_correct:
  assumes wf: "wf_graph graph"
  shows "\<exists>L cur. label_vertices graph ws = Some (L, cur) \<and>
           scan_inv graph ws (num_vertices graph) L cur"
  unfolding label_vertices_def vertex_iterator_def
  using scan_correct[OF wf _ scan_inv_init, of ws] by simp

subsection \<open>First vertices and ranks of components\<close>

lemma component_first_exists:
  "\<exists>r. component_first graph ws r \<and> connected graph ws r v \<and> r \<le> v"
proof -
  let ?r = "LEAST u. connected graph ws u v"
  have v: "connected graph ws v v" by (rule connected_refl)
  then have r: "connected graph ws ?r v" by (rule LeastI)
  have "component_first graph ws ?r"
    unfolding component_first_def
  proof (intro allI impI)
    fix u assume "connected graph ws ?r u"
    then have "connected graph ws u ?r" by (rule connected_sym)
    with r have "connected graph ws u v" by (auto intro: connected_trans)
    then show "?r \<le> u" by (rule Least_le)
  qed
  moreover from v have "?r \<le> v" by (rule Least_le)
  ultimately show ?thesis using r by blast
qed

lemma component_first_unique:
  assumes "component_first graph ws r" and "component_first graph ws r'"
    and "connected graph ws r r'"
  shows "r = r'"
proof -
  from assms(1,3) have "r \<le> r'" by (simp add: component_first_def)
  moreover from assms(3) have "connected graph ws r' r" by (rule connected_sym)
  with assms(2) have "r' \<le> r" by (simp add: component_first_def)
  ultimately show ?thesis by simp
qed

lemma label_rank_less:
  assumes "component_first graph ws r2" and "r1 < r2"
  shows "label_rank graph ws r1 < label_rank graph ws r2"
proof -
  let ?F = "component_first graph ws"
  have "finite {r'. r' \<le> r2 \<and> ?F r'}" by simp
  moreover have "{r'. r' \<le> r1 \<and> ?F r'} \<subset> {r'. r' \<le> r2 \<and> ?F r'}"
  proof (rule psubsetI)
    show "{r'. r' \<le> r1 \<and> ?F r'} \<subseteq> {r'. r' \<le> r2 \<and> ?F r'}" using assms(2) by auto
    have "r2 \<in> {r'. r' \<le> r2 \<and> ?F r'}" using assms(1) by simp
    moreover have "r2 \<notin> {r'. r' \<le> r1 \<and> ?F r'}" using assms(2) by simp
    ultimately show "{r'. r' \<le> r1 \<and> ?F r'} \<noteq> {r'. r' \<le> r2 \<and> ?F r'}" by metis
  qed
  ultimately have "card {r'. r' \<le> r1 \<and> ?F r'} < card {r'. r' \<le> r2 \<and> ?F r'}"
    by (rule psubset_card_mono)
  then show ?thesis by (simp add: label_rank_def)
qed

lemma label_rank_inj:
  assumes "component_first graph ws r1" and "component_first graph ws r2"
    and "label_rank graph ws r1 = label_rank graph ws r2"
  shows "r1 = r2"
proof (rule ccontr)
  assume "r1 \<noteq> r2"
  then consider "r1 < r2" | "r2 < r1" by (auto simp: neq_iff)
  then show False
  proof cases
    case 1
    from label_rank_less[OF assms(2) 1] assms(3) show False by simp
  next
    case 2
    from label_rank_less[OF assms(1) 2] assms(3) show False by simp
  qed
qed

lemma label_rank_first:
  assumes "component_first graph ws r"
  shows "label_rank graph ws r = 1 + int (card {r'. r' < r \<and> component_first graph ws r'})"
proof -
  let ?F = "component_first graph ws"
  have "{r'. r' \<le> r \<and> ?F r'} = insert r {r'. r' < r \<and> ?F r'}"
    using assms by (auto simp: le_less)
  moreover have "finite {r'. r' < r \<and> ?F r'}" by simp
  ultimately have "card {r'. r' \<le> r \<and> ?F r'} = Suc (card {r'. r' < r \<and> ?F r'})"
    by simp
  then show ?thesis by (simp add: label_rank_def)
qed

lemma label_rank_bounds:
  assumes "component_first graph ws r" and "r < n"
  shows "1 \<le> label_rank graph ws r"
    and "label_rank graph ws r \<le> int (card {r'. r' < n \<and> component_first graph ws r'})"
proof -
  let ?F = "component_first graph ws"
  show "1 \<le> label_rank graph ws r" using label_rank_first[OF assms(1)] by simp
  have "finite {r'. r' < n \<and> ?F r'}" by simp
  moreover have "{r'. r' \<le> r \<and> ?F r'} \<subseteq> {r'. r' < n \<and> ?F r'}" using assms(2) by auto
  ultimately have "card {r'. r' \<le> r \<and> ?F r'} \<le> card {r'. r' < n \<and> ?F r'}"
    by (rule card_mono)
  then show "label_rank graph ws r \<le> int (card {r'. r' < n \<and> ?F r'})"
    by (simp add: label_rank_def)
qed

lemma label_vertices_rank:
  assumes wf: "wf_graph graph"
  shows "\<exists>L. label_vertices graph ws =
            Some (L, int (card {r. r < num_vertices graph \<and> component_first graph ws r})) \<and>
          length L = num_vertices graph \<and>
          (\<forall>v<num_vertices graph. \<forall>r. component_first graph ws r \<and> connected graph ws r v \<longrightarrow>
             L ! v = label_rank graph ws r)"
proof -
  from label_vertices_correct[OF wf, of ws] obtain L cur where
    lv: "label_vertices graph ws = Some (L, cur)"
    and inv: "scan_inv graph ws (num_vertices graph) L cur" by blast
  have "L ! v = label_rank graph ws r"
    if "v < num_vertices graph" "component_first graph ws r" "connected graph ws r v" for v r
  proof -
    from that(2,3) have "r \<le> v" by (simp add: component_first_def)
    with that(1) have "r < num_vertices graph" by simp
    with inv that show ?thesis unfolding scan_inv_def by blast
  qed
  with lv inv show ?thesis unfolding scan_inv_def by blast
qed

lemma graph_cut_2_labelisation_checked:
  assumes "dimension xedge_weights = 1" and "num_edges graph = xsize xedge_weights"
  shows "graph_cut_2_labelisation graph xedge_weights =
         map_option (\<lambda>st. Inr (fst st)) (label_vertices graph (storage xedge_weights))"
  using assms by (simp add: graph_cut_2_labelisation_def)

lemma array_1d_checks:
  "dimension (array_1d ws) = 1" "xsize (array_1d ws) = length ws" "storage (array_1d ws) = ws"
  by (simp_all add: array_1d_def dimension_def xsize_def)

subsection \<open>The returned labelling\<close>

text \<open>
  C1: for every well-formed graph and every one-dimensional edge-weight array of length
  \<open>num_edges\<close>, the call returns a label array indexed by the vertices in which two
  vertices have the same label if and only if a path of edges of weight zero joins them.
\<close>

theorem graph_cut_2_labelisation_same_label_iff_connected:
  assumes wf: "wf_graph graph" and len: "length ws = num_edges graph"
  shows "\<exists>labels. graph_cut_2_labelisation graph (array_1d ws) = Some (Inr labels) \<and>
           length labels = num_vertices graph \<and>
           (\<forall>u<num_vertices graph. \<forall>v<num_vertices graph.
              (labels ! u = labels ! v) = connected graph ws u v)"
proof -
  from label_vertices_rank[OF wf, of ws] obtain L cur where
    lv: "label_vertices graph ws = Some (L, cur)"
    and lenL: "length L = num_vertices graph"
    and rank: "\<And>v r. v < num_vertices graph \<Longrightarrow> component_first graph ws r \<Longrightarrow>
        connected graph ws r v \<Longrightarrow> L ! v = label_rank graph ws r"
    by blast
  have res: "graph_cut_2_labelisation graph (array_1d ws) = Some (Inr L)"
    using graph_cut_2_labelisation_checked[of "array_1d ws" graph] len lv
    by (simp add: array_1d_checks)
  have "(L ! u = L ! v) = connected graph ws u v"
    if u: "u < num_vertices graph" and v: "v < num_vertices graph" for u v
  proof -
    from component_first_exists[of graph ws u] obtain ru where
      ru: "component_first graph ws ru" "connected graph ws ru u" by blast
    from component_first_exists[of graph ws v] obtain rv where
      rv: "component_first graph ws rv" "connected graph ws rv v" by blast
    from rank[OF u ru] rank[OF v rv]
    have Lu: "L ! u = label_rank graph ws ru" and Lv: "L ! v = label_rank graph ws rv" .
    show ?thesis
    proof
      assume "L ! u = L ! v"
      with Lu Lv have "ru = rv" using label_rank_inj[OF ru(1) rv(1)] by simp
      with ru(2) rv(2) show "connected graph ws u v"
        by (auto intro: connected_trans connected_sym)
    next
      assume uv: "connected graph ws u v"
      with ru(2) have "connected graph ws ru v" by (rule connected_trans)
      with rv(2) have "connected graph ws ru rv"
        by (auto intro: connected_trans connected_sym)
      with ru(1) rv(1) have "ru = rv" by (rule component_first_unique)
      with Lu Lv show "L ! u = L ! v" by simp
    qed
  qed
  with res lenL show ?thesis by blast
qed

theorem graph_cut_2_labelisation_same_label_iff_connected_witness:
  "wf_graph (path_graph 3) \<and> length [0, 1 :: int] = num_edges (path_graph 3) \<and>
   (\<exists>labels. graph_cut_2_labelisation (path_graph 3) (array_1d [0, 1 :: int]) = Some (Inr labels) \<and>
      length labels = num_vertices (path_graph 3) \<and>
      (\<forall>u<num_vertices (path_graph 3). \<forall>v<num_vertices (path_graph 3).
         (labels ! u = labels ! v) = connected (path_graph 3) [0, 1 :: int] u v))"
proof -
  have a: "wf_graph (path_graph 3)"
    by (simp add: wf_graph_def path_graph_def upt_rec)
  have b: "length [0, 1 :: int] = num_edges (path_graph 3)"
    by (simp add: num_edges_def path_graph_def)
  from graph_cut_2_labelisation_same_label_iff_connected[OF a b] a b
  show ?thesis by blast
qed

text \<open>
  C5: the labels follow the order of discovery, starting at 1, one label per component.
  The component whose first vertex (the one of least index, where the scan over the
  vertices in increasing order meets it) is \<open>r\<close> has on all its vertices the label
  1 + the number of components whose first vertex is below \<open>r\<close>.
\<close>

theorem graph_cut_2_labelisation_discovery_order:
  assumes wf: "wf_graph graph" and len: "length ws = num_edges graph"
  shows "\<exists>labels. graph_cut_2_labelisation graph (array_1d ws) = Some (Inr labels) \<and>
           length labels = num_vertices graph \<and>
           (\<forall>v<num_vertices graph. \<forall>r. component_first graph ws r \<and> connected graph ws r v \<longrightarrow>
              labels ! v = 1 + int (card {r'. r' < r \<and> component_first graph ws r'}))"
proof -
  from label_vertices_rank[OF wf, of ws] obtain L cur where
    lv: "label_vertices graph ws = Some (L, cur)"
    and lenL: "length L = num_vertices graph"
    and rank: "\<And>v r. v < num_vertices graph \<Longrightarrow> component_first graph ws r \<Longrightarrow>
        connected graph ws r v \<Longrightarrow> L ! v = label_rank graph ws r"
    by blast
  have res: "graph_cut_2_labelisation graph (array_1d ws) = Some (Inr L)"
    using graph_cut_2_labelisation_checked[of "array_1d ws" graph] len lv
    by (simp add: array_1d_checks)
  have "L ! v = 1 + int (card {r'. r' < r \<and> component_first graph ws r'})"
    if "v < num_vertices graph" "component_first graph ws r" "connected graph ws r v" for v r
    using rank[OF that] label_rank_first[OF that(2)] by simp
  with res lenL show ?thesis by blast
qed

theorem graph_cut_2_labelisation_discovery_order_witness:
  "wf_graph (path_graph 4) \<and> length [0, 2, 0 :: int] = num_edges (path_graph 4) \<and>
   (\<exists>labels. graph_cut_2_labelisation (path_graph 4) (array_1d [0, 2, 0 :: int]) = Some (Inr labels) \<and>
      length labels = num_vertices (path_graph 4) \<and>
      (\<forall>v<num_vertices (path_graph 4). \<forall>r.
         component_first (path_graph 4) [0, 2, 0 :: int] r \<and>
         connected (path_graph 4) [0, 2, 0 :: int] r v \<longrightarrow>
         labels ! v =
           1 + int (card {r'. r' < r \<and> component_first (path_graph 4) [0, 2, 0 :: int] r'})))"
proof -
  have a: "wf_graph (path_graph 4)"
    by (simp add: wf_graph_def path_graph_def upt_rec)
  have b: "length [0, 2, 0 :: int] = num_edges (path_graph 4)"
    by (simp add: num_edges_def path_graph_def)
  from graph_cut_2_labelisation_discovery_order[OF a b] a b
  show ?thesis by blast
qed

text \<open>
  C10: when the graph is well formed and the edge-weight array passes the two checks,
  the call returns, every vertex is labelled (no entry is left at \<open>invalid_index\<close>), and
  every label lies between 1 and the final value \<open>k\<close> of the label counter.
\<close>

theorem graph_cut_2_labelisation_all_labelled:
  assumes wf: "wf_graph graph"
    and dim: "dimension xedge_weights = 1"
    and size: "num_edges graph = xsize xedge_weights"
  shows "\<exists>labels k. label_vertices graph (storage xedge_weights) = Some (labels, k) \<and>
           graph_cut_2_labelisation graph xedge_weights = Some (Inr labels) \<and>
           length labels = num_vertices graph \<and>
           (\<forall>v<num_vertices graph.
              labels ! v \<noteq> invalid_index \<and> 1 \<le> labels ! v \<and> labels ! v \<le> k)"
proof -
  let ?ws = "storage xedge_weights"
  from label_vertices_rank[OF wf, of ?ws] obtain L where
    lv: "label_vertices graph ?ws =
           Some (L, int (card {r. r < num_vertices graph \<and> component_first graph ?ws r}))"
    and lenL: "length L = num_vertices graph"
    and rank: "\<And>v r. v < num_vertices graph \<Longrightarrow> component_first graph ?ws r \<Longrightarrow>
        connected graph ?ws r v \<Longrightarrow> L ! v = label_rank graph ?ws r"
    by blast
  let ?k = "int (card {r. r < num_vertices graph \<and> component_first graph ?ws r})"
  have res: "graph_cut_2_labelisation graph xedge_weights = Some (Inr L)"
    using graph_cut_2_labelisation_checked[OF dim size] lv by simp
  have "L ! v \<noteq> invalid_index \<and> 1 \<le> L ! v \<and> L ! v \<le> ?k" if v: "v < num_vertices graph" for v
  proof -
    from component_first_exists[of graph ?ws v] obtain r where
      r: "component_first graph ?ws r" "connected graph ?ws r v" "r \<le> v" by blast
    from r(3) v have rn: "r < num_vertices graph" by simp
    from rank[OF v r(1,2)] label_rank_bounds[OF r(1) rn]
    show ?thesis by (simp add: invalid_index_def)
  qed
  with lv res lenL show ?thesis by blast
qed

theorem graph_cut_2_labelisation_all_labelled_witness:
  "wf_graph (path_graph 3) \<and> dimension (array_1d [5, 0 :: int]) = 1 \<and>
   num_edges (path_graph 3) = xsize (array_1d [5, 0 :: int]) \<and>
   (\<exists>labels k. label_vertices (path_graph 3) (storage (array_1d [5, 0 :: int])) = Some (labels, k) \<and>
      graph_cut_2_labelisation (path_graph 3) (array_1d [5, 0 :: int]) = Some (Inr labels) \<and>
      length labels = num_vertices (path_graph 3) \<and>
      (\<forall>v<num_vertices (path_graph 3).
         labels ! v \<noteq> invalid_index \<and> 1 \<le> labels ! v \<and> labels ! v \<le> k))"
proof -
  have a: "wf_graph (path_graph 3)"
    by (simp add: wf_graph_def path_graph_def upt_rec)
  have b: "dimension (array_1d [5, 0 :: int]) = 1"
    by (simp add: array_1d_checks)
  have c: "num_edges (path_graph 3) = xsize (array_1d [5, 0 :: int])"
    by (simp add: array_1d_checks num_edges_def path_graph_def)
  from graph_cut_2_labelisation_all_labelled[OF a b c] a b c
  show ?thesis by blast
qed

section \<open>Dispatch on the reducer selector\<close>

lemma accumulate_parallel_not_unknown:
  "accumulate_parallel lim t input acc \<noteq> Inl (runtime_error ''Unknown accumulator.'')"
  by (simp add: accumulate_parallel_def)

lemma accumulate_sequential_not_unknown:
  "accumulate_sequential lim t leaf_values acc \<noteq> Inl (runtime_error ''Unknown accumulator.'')"
  by (simp add: accumulate_sequential_def)

lemma accumulate_and_combine_sequential_not_unknown:
  "accumulate_and_combine_sequential lim t input leaf_values acc f \<noteq>
     Inl (runtime_error ''Unknown accumulator.'')"
  by (simp add: accumulate_and_combine_sequential_def)

text \<open>
  C8: in each of the three accumulation entry points (parallel, sequential, accumulate
  and combine), a selector that is none of the eight members min, max, mean, counter,
  sum, prod, first, last fails with the error "Unknown accumulator.", this error arises
  for no listed selector, and each of the eight members calls the accumulation with the
  strategy of the same name.
\<close>

theorem accumulator_dispatch:
  "py_accumulate_parallel lim t x (accumulators_unlisted k) = Inl (runtime_error ''Unknown accumulator.'')
   \<and> py_accumulate_sequential lim t x (accumulators_unlisted k) = Inl (runtime_error ''Unknown accumulator.'')
   \<and> py_accumulate_and_combine_sequential f lim t x y (accumulators_unlisted k) =
        Inl (runtime_error ''Unknown accumulator.'')
   \<and> (py_accumulate_parallel lim t x sel = Inl (runtime_error ''Unknown accumulator.'')) = (\<not> listed sel)
   \<and> (py_accumulate_sequential lim t x sel = Inl (runtime_error ''Unknown accumulator.'')) = (\<not> listed sel)
   \<and> (py_accumulate_and_combine_sequential f lim t x y sel =
        Inl (runtime_error ''Unknown accumulator.'')) = (\<not> listed sel)
   \<and> map (py_accumulate_parallel lim t x)
        [accumulators_min, accumulators_max, accumulators_mean, accumulators_counter,
         accumulators_sum, accumulators_prod, accumulators_first, accumulators_last] =
      map (accumulate_parallel lim t x)
        [accumulator_min, accumulator_max, accumulator_mean, accumulator_counter,
         accumulator_sum, accumulator_prod, accumulator_first, accumulator_last]
   \<and> map (py_accumulate_sequential lim t x)
        [accumulators_min, accumulators_max, accumulators_mean, accumulators_counter,
         accumulators_sum, accumulators_prod, accumulators_first, accumulators_last] =
      map (accumulate_sequential lim t x)
        [accumulator_min, accumulator_max, accumulator_mean, accumulator_counter,
         accumulator_sum, accumulator_prod, accumulator_first, accumulator_last]
   \<and> map (py_accumulate_and_combine_sequential f lim t x y)
        [accumulators_min, accumulators_max, accumulators_mean, accumulators_counter,
         accumulators_sum, accumulators_prod, accumulators_first, accumulators_last] =
      map (\<lambda>acc. accumulate_and_combine_sequential lim t x y acc f)
        [accumulator_min, accumulator_max, accumulator_mean, accumulator_counter,
         accumulator_sum, accumulator_prod, accumulator_first, accumulator_last]"
proof (intro conjI)
  show "(py_accumulate_parallel lim t x sel = Inl (runtime_error ''Unknown accumulator.'')) = (\<not> listed sel)"
    by (cases sel) (simp_all add: py_accumulate_parallel_def listed_def accumulate_parallel_not_unknown)
  show "(py_accumulate_sequential lim t x sel = Inl (runtime_error ''Unknown accumulator.'')) = (\<not> listed sel)"
    by (cases sel) (simp_all add: py_accumulate_sequential_def listed_def accumulate_sequential_not_unknown)
  show "(py_accumulate_and_combine_sequential f lim t x y sel =
        Inl (runtime_error ''Unknown accumulator.'')) = (\<not> listed sel)"
    by (cases sel) (simp_all add: py_accumulate_and_combine_sequential_def listed_def
        accumulate_and_combine_sequential_not_unknown)
qed (simp_all add: py_accumulate_parallel_def py_accumulate_sequential_def
      py_accumulate_and_combine_sequential_def)

section \<open>Parallel propagation without condition\<close>

text \<open>
  C9: for every tree and every array with one value per vertex, the parallel propagation
  called without a condition array (the default, of dimension 0) returns an array in
  which every vertex other than the root holds the input value of its parent.
\<close>

theorem propagate_parallel_copies_parent:
  assumes "length input = num_vertices_tree t" and "dimension condition = 0"
  shows "\<exists>out. py_propagate_parallel t input condition = Inr out \<and>
           length out = num_vertices_tree t \<and>
           (\<forall>v<num_vertices_tree t. v \<noteq> root t \<longrightarrow> out ! v = input ! parent v t)"
  using assms by (simp add: py_propagate_parallel_def propagate_parallel_def)

theorem propagate_parallel_copies_parent_witness:
  "length [10, 20, 30, 40, 50, 60, 70 :: int] = num_vertices_tree scenario_tree \<and>
   dimension default_condition = 0 \<and>
   (\<exists>out. py_propagate_parallel scenario_tree [10, 20, 30, 40, 50, 60, 70] default_condition =
             Inr out \<and>
      length out = num_vertices_tree scenario_tree \<and>
      (\<forall>v<num_vertices_tree scenario_tree. v \<noteq> root scenario_tree \<longrightarrow>
         out ! v = [10, 20, 30, 40, 50, 60, 70] ! parent v scenario_tree))"
proof -
  have a: "length [10, 20, 30, 40, 50, 60, 70 :: int] = num_vertices_tree scenario_tree"
    by (simp add: num_vertices_tree_def scenario_tree_def)
  have b: "dimension default_condition = 0"
    by (simp add: dimension_def default_condition_def)
  from propagate_parallel_copies_parent[OF a b] a b show ?thesis by blast
qed

section \<open>Sequential accumulation with the sum\<close>

lemma fold_combine_sum:
  "fold (\<lambda>x s. combine accumulator_sum s x) xs (a, k) = (a + sum_list xs, k + length xs)"
  by (induction xs arbitrary: a k) simp_all

lemma reduce_sum: "reduce lim accumulator_sum xs = sum_list xs"
  by (simp add: reduce_def fold_combine_sum)

lemma wf_tree_parent:
  assumes "wf_tree t" and "v < root t"
  shows "v < parent v t" and "parent v t < num_vertices_tree t" and "num_leaves t \<le> parent v t"
  using assms by (simp_all add: wf_tree_def list_all_iff)

lemma wf_tree_root:
  assumes "wf_tree t"
  shows "parent (root t) t = root t" and "root t < num_vertices_tree t"
    and "0 < num_leaves t" and "num_leaves t \<le> num_vertices_tree t"
  using assms by (simp_all add: wf_tree_def root_def)

lemma set_children:
  assumes "wf_tree t"
  shows "set (children v t) = {c. c < root t \<and> parent c t = v}"
proof -
  have "(c < num_vertices_tree t \<and> parent c t \<noteq> c) = (c < root t)" for c
  proof
    assume h: "c < num_vertices_tree t \<and> parent c t \<noteq> c"
    with wf_tree_root(1)[OF assms] have "c \<noteq> root t" by auto
    moreover from h have "c < num_vertices_tree t" by simp
    ultimately show "c < root t" unfolding root_def by arith
  next
    assume "c < root t"
    with wf_tree_parent(1)[OF assms this] show "c < num_vertices_tree t \<and> parent c t \<noteq> c"
      by (simp add: root_def)
  qed
  then show ?thesis by (auto simp: children_def)
qed

lemma distinct_children: "distinct (children v t)"
  by (simp add: children_def)

lemma children_less:
  assumes "wf_tree t" and "c \<in> set (children v t)"
  shows "c < v"
  using assms wf_tree_parent(1)[OF assms(1), of c] by (auto simp: set_children)

lemma sum_list_children:
  "sum_list (map f (children v t)) = sum f (set (children v t))"
  by (rule sum_list_distinct_conv_sum_set) (rule distinct_children)

lemma accumulate_inv_init:
  assumes wf: "wf_tree t" and len: "length leaf_values = num_leaves t"
    and nl: "num_leaves t \<le> root t"
  shows "accumulate_inv t leaf_values (num_leaves t)
           (leaf_values @ replicate (num_vertices_tree t - num_leaves t) 0)"
proof -
  let ?init = "leaf_values @ replicate (num_vertices_tree t - num_leaves t) 0"
  have 1: "length ?init = num_vertices_tree t"
    using len wf_tree_root(4)[OF wf] by simp
  have 2: "\<forall>v<num_leaves t. ?init ! v = leaf_values ! v"
    using len by (simp add: nth_append)
  have "{v. v < num_leaves t \<and> num_leaves t \<le> parent v t} = {0..<num_leaves t}"
    using nl wf_tree_parent(3)[OF wf] by auto
  then have "(\<Sum>v\<in>{v. v < num_leaves t \<and> num_leaves t \<le> parent v t}. ?init ! v) =
        (\<Sum>v = 0..<num_leaves t. ?init ! v)" by simp
  also have "\<dots> = (\<Sum>v = 0..<length leaf_values. leaf_values ! v)"
    using len by (intro sum.cong) (simp_all add: nth_append)
  also have "\<dots> = sum_list leaf_values" by (simp add: sum_list_sum_nth)
  finally have 4: "(\<Sum>v\<in>{v. v < num_leaves t \<and> num_leaves t \<le> parent v t}. ?init ! v) =
        sum_list leaf_values" .
  show ?thesis unfolding accumulate_inv_def using 1 2 4 by auto
qed

lemma accumulate_inv_step:
  assumes wf: "wf_tree t" and inv: "accumulate_inv t leaf_values k out"
    and nl: "num_leaves t \<le> k" and k: "k < root t"
  shows "accumulate_inv t leaf_values (Suc k) (accumulate_vertex lim t accumulator_sum k out)"
proof -
  let ?S = "sum_list (map (\<lambda>c. out ! c) (children k t))"
  let ?out = "out[k := ?S]"
  let ?F = "{v. v < k \<and> k \<le> parent v t}"
  let ?F' = "{v. v < Suc k \<and> Suc k \<le> parent v t}"
  let ?C = "set (children k t)"
  have step: "accumulate_vertex lim t accumulator_sum k out = ?out"
    by (simp add: accumulate_vertex_def reduce_sum)
  from inv have len: "length out = num_vertices_tree t"
    and leaf: "\<And>v. v < num_leaves t \<Longrightarrow> out ! v = leaf_values ! v"
    and prev: "\<And>v. v < k \<Longrightarrow> num_leaves t \<le> v \<Longrightarrow>
        out ! v = sum_list (map (\<lambda>c. out ! c) (children v t))"
    and front: "(\<Sum>v\<in>?F. out ! v) = sum_list leaf_values"
    unfolding accumulate_inv_def by blast+
  from k have kn: "k < length out" using len by (simp add: root_def)
  have same: "sum_list (map (\<lambda>c. ?out ! c) (children v t)) =
        sum_list (map (\<lambda>c. out ! c) (children v t))"
    if "v \<le> k" for v
  proof (rule arg_cong[where f = sum_list], rule map_cong[OF refl])
    fix c assume "c \<in> set (children v t)"
    with children_less[OF wf this] that have "c \<noteq> k" by simp
    then show "?out ! c = out ! c" by simp
  qed
  have 1: "length ?out = num_vertices_tree t" using len by simp
  have 2: "\<forall>v<num_leaves t. ?out ! v = leaf_values ! v"
    using nl leaf by simp
  have 3: "\<forall>v<Suc k. num_leaves t \<le> v \<longrightarrow> ?out ! v = sum_list (map (\<lambda>c. ?out ! c) (children v t))"
  proof (intro allI impI)
    fix v assume v: "v < Suc k" and nv: "num_leaves t \<le> v"
    show "?out ! v = sum_list (map (\<lambda>c. ?out ! c) (children v t))"
    proof (cases "v = k")
      case True
      with kn same[of k] show ?thesis by simp
    next
      case False
      with v have vk: "v < k" by simp
      with prev[OF vk nv] same[of v] show ?thesis by simp
    qed
  qed
  have CF: "?C \<subseteq> ?F"
    using wf_tree_parent(1)[OF wf] by (auto simp: set_children[OF wf])
  have F': "?F' = insert k (?F - ?C)"
    using wf_tree_parent(1)[OF wf k] k by (auto simp: set_children[OF wf] less_Suc_eq)
  have finF: "finite ?F" by simp
  have kF: "k \<notin> ?F - ?C" by simp
  have "(\<Sum>v\<in>?F'. ?out ! v) = ?out ! k + (\<Sum>v\<in>?F - ?C. ?out ! v)"
    unfolding F' using finF kF by (subst sum.insert) simp_all
  also have "(\<Sum>v\<in>?F - ?C. ?out ! v) = (\<Sum>v\<in>?F - ?C. out ! v)"
    by (rule sum.cong) auto
  also have "?out ! k = (\<Sum>v\<in>?C. out ! v)"
    using kn by (simp add: sum_list_children)
  also have "(\<Sum>v\<in>?C. out ! v) + (\<Sum>v\<in>?F - ?C. out ! v) = (\<Sum>v\<in>?F. out ! v)"
    using sum.subset_diff[OF CF finF, of "\<lambda>v. out ! v"] by simp
  finally have 4: "(\<Sum>v\<in>?F'. ?out ! v) = sum_list leaf_values" using front by simp
  show ?thesis unfolding step accumulate_inv_def using 1 2 3 4 by blast
qed

lemma accumulate_inv_fold:
  assumes wf: "wf_tree t" and len: "length leaf_values = num_leaves t"
    and nl: "num_leaves t \<le> k" and k: "k \<le> root t"
  shows "accumulate_inv t leaf_values k
           (fold (accumulate_vertex lim t accumulator_sum) [num_leaves t..<k]
              (leaf_values @ replicate (num_vertices_tree t - num_leaves t) 0))"
  using nl k
proof (induction k rule: dec_induct)
  case base
  then show ?case using accumulate_inv_init[OF wf len] by simp
next
  case (step j)
  then have "accumulate_inv t leaf_values j
           (fold (accumulate_vertex lim t accumulator_sum) [num_leaves t..<j]
              (leaf_values @ replicate (num_vertices_tree t - num_leaves t) 0))" by simp
  from accumulate_inv_step[OF wf this step(1)] step(4) step(1)
  show ?case by simp
qed

lemma accumulate_root:
  fixes lim :: numeric_limits
  assumes wf: "wf_tree t" and inv: "accumulate_inv t leaf_values (root t) out"
    and nl: "num_leaves t \<le> root t"
    and out': "out' = accumulate_vertex lim t accumulator_sum (root t) out"
  shows "length out' = num_vertices_tree t"
    and "\<forall>v<num_leaves t. out' ! v = leaf_values ! v"
    and "\<forall>v<num_vertices_tree t. num_leaves t \<le> v \<longrightarrow>
           out' ! v = sum_list (map (\<lambda>c. out' ! c) (children v t))"
    and "out' ! root t = sum_list leaf_values"
proof -
  let ?k = "root t"
  let ?S = "sum_list (map (\<lambda>c. out ! c) (children ?k t))"
  let ?out = "out[?k := ?S]"
  let ?F = "{v. v < ?k \<and> ?k \<le> parent v t}"
  have step: "out' = ?out"
    by (simp add: out' accumulate_vertex_def reduce_sum)
  from inv have len: "length out = num_vertices_tree t"
    and leaf: "\<And>v. v < num_leaves t \<Longrightarrow> out ! v = leaf_values ! v"
    and prev: "\<And>v. v < ?k \<Longrightarrow> num_leaves t \<le> v \<Longrightarrow>
        out ! v = sum_list (map (\<lambda>c. out ! c) (children v t))"
    and front: "(\<Sum>v\<in>?F. out ! v) = sum_list leaf_values"
    unfolding accumulate_inv_def by blast+
  from wf_tree_root(2)[OF wf] have kn: "?k < length out" using len by simp
  have same: "sum_list (map (\<lambda>c. ?out ! c) (children v t)) =
        sum_list (map (\<lambda>c. out ! c) (children v t))"
    if "v \<le> ?k" for v
  proof (rule arg_cong[where f = sum_list], rule map_cong[OF refl])
    fix c assume "c \<in> set (children v t)"
    with children_less[OF wf this] that have "c \<noteq> ?k" by simp
    then show "?out ! c = out ! c" by simp
  qed
  have "set (children ?k t) = ?F"
  proof -
    have "parent v t = ?k \<longleftrightarrow> ?k \<le> parent v t" if "v < ?k" for v
      using wf_tree_parent(2)[OF wf that] by (auto simp: root_def)
    then show ?thesis by (auto simp: set_children[OF wf])
  qed
  then have S: "?S = sum_list leaf_values"
    using front by (simp add: sum_list_children)
  with kn show "out' ! ?k = sum_list leaf_values"
    by (simp add: step)
  show "length out' = num_vertices_tree t" using len by (simp add: step)
  show "\<forall>v<num_leaves t. out' ! v = leaf_values ! v"
    using nl leaf by (simp add: step)
  show "\<forall>v<num_vertices_tree t. num_leaves t \<le> v \<longrightarrow>
           out' ! v = sum_list (map (\<lambda>c. out' ! c) (children v t))"
    unfolding step
  proof (intro allI impI)
    fix v assume v: "v < num_vertices_tree t" and nv: "num_leaves t \<le> v"
    then have vle: "v \<le> ?k" by (simp add: root_def)
    show "?out ! v = sum_list (map (\<lambda>c. ?out ! c) (children v t))"
    proof (cases "v = ?k")
      case True
      with kn same[of ?k] show ?thesis by simp
    next
      case False
      with vle have vk: "v < ?k" by simp
      with prev[OF vk nv] same[of v] show ?thesis by simp
    qed
  qed
qed

lemma accumulate_sequential_sum:
  assumes wf: "wf_tree t" and len: "length leaf_values = num_leaves t"
  shows "\<exists>out. accumulate_sequential lim t leaf_values accumulator_sum = Inr out \<and>
           length out = num_vertices_tree t \<and>
           (\<forall>v<num_leaves t. out ! v = leaf_values ! v) \<and>
           (\<forall>v<num_vertices_tree t. num_leaves t \<le> v \<longrightarrow>
              out ! v = sum_list (map (\<lambda>c. out ! c) (children v t))) \<and>
           out ! root t = sum_list leaf_values"
proof (cases "num_leaves t \<le> root t")
  case True
  let ?f = "accumulate_vertex lim t accumulator_sum"
  let ?init = "leaf_values @ replicate (num_vertices_tree t - num_leaves t) 0"
  from wf_tree_root(2)[OF wf] have "num_vertices_tree t = Suc (root t)" by (simp add: root_def)
  with True have "[num_leaves t..<num_vertices_tree t] = [num_leaves t..<root t] @ [root t]"
    by simp
  then have res: "accumulate_sequential lim t leaf_values accumulator_sum =
      Inr (?f (root t) (fold ?f [num_leaves t..<root t] ?init))"
    using len by (simp add: accumulate_sequential_def)
  from accumulate_inv_fold[OF wf len True le_refl]
  have "accumulate_inv t leaf_values (root t) (fold ?f [num_leaves t..<root t] ?init)" .
  from accumulate_root[OF wf this True refl, of lim] res show ?thesis by simp
next
  case False
  with wf_tree_root[OF wf] have n1: "num_leaves t = num_vertices_tree t" "root t = num_leaves t - 1"
    by (simp_all add: root_def)
  have "num_vertices_tree t = 1"
  proof (rule ccontr)
    assume "num_vertices_tree t \<noteq> 1"
    with wf_tree_root(2)[OF wf] have "0 < root t" by (simp add: root_def)
    from wf_tree_parent(2,3)[OF wf this] n1 show False by simp
  qed
  with n1 have one: "num_leaves t = 1" "root t = 0" "num_vertices_tree t = 1" by simp_all
  with len obtain x where x: "leaf_values = [x]"
    by (cases leaf_values) auto
  show ?thesis using len one x by (simp add: accumulate_sequential_def)
qed

lemma scenario_tree_result:
  "py_accumulate_sequential lim scenario_tree [1, 2, 3, 4] accumulators_sum =
     Inr [1, 2, 3, 4, 3, 7, 10]"
  by (simp add: py_accumulate_sequential_def accumulate_sequential_def scenario_tree_def
      num_vertices_tree_def upt_rec accumulate_vertex_def reduce_sum children_def parent_def)

text \<open>
  C2: for every tree and every array with one value per leaf, the sequential accumulation
  with the sum returns an array with one value per vertex that holds the input at the
  leaves and, at each internal vertex, the sum of the computed values of its children;
  its value at the root is the sum of all leaf values. On the tree with leaves 0-3,
  vertex 4 above 0 and 1, vertex 5 above 2 and 3 and root 6 above 4 and 5, the leaf
  values \<open>[1,2,3,4]\<close> give \<open>[1,2,3,4,3,7,10]\<close>.
\<close>

theorem accumulate_sequential_sum_root:
  "(wf_tree t \<and> length leaf_values = num_leaves t \<longrightarrow>
      (\<exists>out. py_accumulate_sequential lim t leaf_values accumulators_sum = Inr out \<and>
         length out = num_vertices_tree t \<and>
         (\<forall>v<num_leaves t. out ! v = leaf_values ! v) \<and>
         (\<forall>v<num_vertices_tree t. num_leaves t \<le> v \<longrightarrow>
            out ! v = sum_list (map (\<lambda>c. out ! c) (children v t))) \<and>
         out ! root t = sum_list leaf_values))
   \<and> py_accumulate_sequential lim scenario_tree [1, 2, 3, 4] accumulators_sum =
       Inr [1, 2, 3, 4, 3, 7, 10]"
proof (intro conjI impI)
  assume "wf_tree t \<and> length leaf_values = num_leaves t"
  then have "wf_tree t" "length leaf_values = num_leaves t" by simp_all
  from accumulate_sequential_sum[OF this, of lim]
  show "\<exists>out. py_accumulate_sequential lim t leaf_values accumulators_sum = Inr out \<and>
         length out = num_vertices_tree t \<and>
         (\<forall>v<num_leaves t. out ! v = leaf_values ! v) \<and>
         (\<forall>v<num_vertices_tree t. num_leaves t \<le> v \<longrightarrow>
            out ! v = sum_list (map (\<lambda>c. out ! c) (children v t))) \<and>
         out ! root t = sum_list leaf_values"
    by (simp add: py_accumulate_sequential_def)
next
  show "py_accumulate_sequential lim scenario_tree [1, 2, 3, 4] accumulators_sum =
       Inr [1, 2, 3, 4, 3, 7, 10]"
    by (rule scenario_tree_result)
qed

theorem accumulate_sequential_sum_root_witness:
  "wf_tree scenario_tree \<and> length [1, 2, 3, 4 :: int] = num_leaves scenario_tree \<and>
   (\<exists>out. py_accumulate_sequential \<lparr>lowest = - 128, highest = 127\<rparr> scenario_tree [1, 2, 3, 4]
             accumulators_sum = Inr out \<and>
      out = [1, 2, 3, 4, 3, 7, 10] \<and>
      out ! root scenario_tree = sum_list [1, 2, 3, 4])"
proof -
  have a: "wf_tree scenario_tree"
    by (simp add: wf_tree_def scenario_tree_def num_vertices_tree_def root_def parent_def upt_rec)
  have b: "length [1, 2, 3, 4 :: int] = num_leaves scenario_tree"
    by (simp add: scenario_tree_def)
  from accumulate_sequential_sum_root[of scenario_tree "[1, 2, 3, 4]" "\<lparr>lowest = - 128, highest = 127\<rparr>"]
    a b
  show ?thesis by auto
qed

section \<open>Properties of the lowest common ancestor\<close>

lemma ancestors_from_fuel:
  assumes wf: "wf_tree t"
  shows "v < num_vertices_tree t \<Longrightarrow> root t - v \<le> k \<Longrightarrow> root t - v \<le> k' \<Longrightarrow>
     ancestors_from k t v = ancestors_from k' t v"
proof (induction k arbitrary: v k')
  case 0
  then have "v = root t" by (simp add: root_def)
  with wf_tree_root(1)[OF wf] show ?case by (cases k') simp_all
next
  case (Suc k)
  show ?case
  proof (cases "v = root t")
    case True
    with wf_tree_root(1)[OF wf] show ?thesis by (cases k') simp_all
  next
    case False
    with Suc.prems(1) have v: "v < root t" by (simp add: root_def)
    with Suc.prems(3) obtain j where k': "k' = Suc j" by (cases k') simp_all
    note p = wf_tree_parent(1,2)[OF wf v]
    from p(1) v Suc.prems(2) have "root t - parent v t \<le> k" by simp
    moreover from p(1) v Suc.prems(3) k' have "root t - parent v t \<le> j" by simp
    ultimately have "ancestors_from k t (parent v t) = ancestors_from j t (parent v t)"
      using p(2) by (intro Suc.IH)
    with p(1) k' show ?thesis by simp
  qed
qed

lemma ancestors_root:
  assumes "wf_tree t"
  shows "ancestors (root t) t = [root t]"
proof -
  from wf_tree_root(2)[OF assms] obtain m where "num_vertices_tree t = Suc m"
    by (cases "num_vertices_tree t") simp_all
  with wf_tree_root(1)[OF assms] show ?thesis by (simp add: ancestors_def)
qed

lemma ancestors_step:
  assumes wf: "wf_tree t" and v: "v < root t"
  shows "ancestors v t = v # ancestors (parent v t) t"
proof -
  from v obtain m where n: "num_vertices_tree t = Suc m" and m: "root t = m"
    by (cases "num_vertices_tree t") (simp_all add: root_def)
  note p = wf_tree_parent(1,2)[OF wf v]
  from p(1) have "ancestors_from (Suc m) t v = v # ancestors_from m t (parent v t)" by simp
  moreover have "ancestors_from m t (parent v t) = ancestors_from (Suc m) t (parent v t)"
    using p v m by (intro ancestors_from_fuel[OF wf]) simp_all
  ultimately show ?thesis by (simp add: ancestors_def n)
qed

lemma depth_root:
  assumes "wf_tree t"
  shows "depth (root t) t = 0"
  by (simp add: depth_def ancestors_root[OF assms])

lemma ancestors_self: "v \<in> set (ancestors v t)"
  by (cases "num_vertices_tree t") (simp_all add: ancestors_def)

lemma ancestors_nonempty: "ancestors v t \<noteq> []"
  using ancestors_self[of v t] by auto

lemma depth_step:
  assumes wf: "wf_tree t" and v: "v < root t"
  shows "depth v t = Suc (depth (parent v t) t)"
proof -
  have "0 < length (ancestors (parent v t) t)" using ancestors_nonempty by simp
  then show ?thesis by (simp add: depth_def ancestors_step[OF wf v])
qed

lemma ancestors_facts:
  assumes wf: "wf_tree t"
  shows "v < num_vertices_tree t \<Longrightarrow>
     root t \<in> set (ancestors v t) \<and>
     (\<forall>a\<in>set (ancestors v t). a \<noteq> v \<longrightarrow> depth a t < depth v t)"
proof (induction "root t - v" arbitrary: v rule: less_induct)
  case less
  show ?case
  proof (cases "v = root t")
    case True
    then show ?thesis by (simp add: ancestors_root[OF wf])
  next
    case False
    with less.prems have v: "v < root t" by (simp add: root_def)
    note p = wf_tree_parent(1,2)[OF wf v]
    from p(1) v have "root t - parent v t < root t - v" by simp
    from less.hyps[OF this p(2)]
    have ih1: "root t \<in> set (ancestors (parent v t) t)"
      and ih2: "\<And>a. a \<in> set (ancestors (parent v t) t) \<Longrightarrow> a \<noteq> parent v t \<Longrightarrow>
          depth a t < depth (parent v t) t" by blast+
    have "depth a t < depth v t" if a: "a \<in> set (ancestors v t)" "a \<noteq> v" for a
    proof -
      from a have a': "a \<in> set (ancestors (parent v t) t)"
        by (simp add: ancestors_step[OF wf v])
      show ?thesis
      proof (cases "a = parent v t")
        case True
        then show ?thesis by (simp add: depth_step[OF wf v])
      next
        case False
        from ih2[OF a' False] show ?thesis by (simp add: depth_step[OF wf v])
      qed
    qed
    with ih1 show ?thesis by (simp add: ancestors_step[OF wf v])
  qed
qed

lemma deepest_unique:
  "v \<in> insert b (set xs) \<Longrightarrow> \<forall>a\<in>insert b (set xs). a \<noteq> v \<longrightarrow> depth a t < depth v t \<Longrightarrow>
     fold (\<lambda>a best. if depth best t < depth a t then a else best) xs b = v"
proof (induction xs arbitrary: b)
  case Nil
  then show ?case by simp
next
  case (Cons x xs)
  let ?b = "if depth b t < depth x t then x else b"
  have 1: "v \<in> insert ?b (set xs)"
  proof (cases "v \<in> set xs")
    case True
    then show ?thesis by simp
  next
    case False
    with Cons.prems(1) consider "v = x" | "v = b" "v \<noteq> x" by auto
    then show ?thesis
    proof cases
      case 1
      show ?thesis
      proof (cases "b = v")
        case True
        with 1 show ?thesis by simp
      next
        case False
        with Cons.prems(2) have "depth b t < depth v t" by simp
        with 1 show ?thesis by simp
      qed
    next
      case 2
      with Cons.prems(2) have "depth x t < depth v t" by simp
      with 2 show ?thesis by simp
    qed
  qed
  have 2: "\<forall>a\<in>insert ?b (set xs). a \<noteq> v \<longrightarrow> depth a t < depth v t"
    using Cons.prems(2) by auto
  from Cons.IH[OF 1 2] show ?case by simp
qed

lemma lca_self:
  assumes wf: "wf_tree t" and v: "v < num_vertices_tree t"
  shows "lca (LCAFast t) v v = Inr v"
proof -
  note f = ancestors_facts[OF wf v]
  have s: "set (common_ancestors v v t) \<subseteq> set (ancestors v t)"
    by (auto simp: common_ancestors_def)
  have "v \<in> set (common_ancestors v v t)"
    using v by (simp add: common_ancestors_def ancestors_self)
  then have 1: "v \<in> insert (root t) (set (common_ancestors v v t))" by simp
  have 2: "\<forall>a\<in>insert (root t) (set (common_ancestors v v t)). a \<noteq> v \<longrightarrow> depth a t < depth v t"
    using f s by blast
  from deepest_unique[OF 1 2] v show ?thesis by (simp add: deepest_def)
qed

lemma lca_root:
  assumes wf: "wf_tree t" and v: "v < num_vertices_tree t"
  shows "lca (LCAFast t) v (root t) = Inr (root t)"
proof -
  have "set (common_ancestors v (root t) t) \<subseteq> {root t}"
    by (auto simp: common_ancestors_def ancestors_root[OF wf])
  then have 1: "root t \<in> insert (root t) (set (common_ancestors v (root t) t))"
    and 2: "\<forall>a\<in>insert (root t) (set (common_ancestors v (root t) t)).
              a \<noteq> root t \<longrightarrow> depth a t < depth (root t) t" by auto
  from deepest_unique[OF 1 2] v wf_tree_root(2)[OF wf] show ?thesis by (simp add: deepest_def)
qed

lemma lca_commute: "lca l a b = lca l b a"
proof (cases l)
  case (LCAFast t)
  have "common_ancestors a b t = common_ancestors b a t"
    by (simp add: common_ancestors_def conj_commute)
  then show ?thesis by (auto simp: LCAFast)
qed

text \<open>
  C3: for the query structure built from any tree, the lowest common ancestor of a vertex
  with itself is the vertex, the lowest common ancestor of a vertex and the root is the
  root, and the query is commutative.
\<close>

theorem lca_self_root_commutative:
  assumes "wf_tree t"
  shows "(\<forall>v<num_vertices_tree t. py_lca (LCAFast t) v v = Inr v) \<and>
         (\<forall>v<num_vertices_tree t. py_lca (LCAFast t) v (root t) = Inr (root t)) \<and>
         (\<forall>a b. py_lca (LCAFast t) a b = py_lca (LCAFast t) b a)"
  unfolding py_lca_def
  using lca_self[OF assms] lca_root[OF assms] lca_commute by blast

theorem lca_self_root_commutative_witness:
  "wf_tree scenario_tree \<and>
   (\<exists>r. py_lca (LCAFast scenario_tree) 2 2 = Inr r \<and> r = 2) \<and>
   (\<exists>r. py_lca (LCAFast scenario_tree) 2 (root scenario_tree) = Inr r \<and> r = 6) \<and>
   py_lca (LCAFast scenario_tree) 1 2 = py_lca (LCAFast scenario_tree) 2 1"
proof -
  have a: "wf_tree scenario_tree"
    by (simp add: wf_tree_def scenario_tree_def num_vertices_tree_def root_def parent_def upt_rec)
  have n: "(2::nat) < num_vertices_tree scenario_tree" "root scenario_tree = 6"
    by (simp_all add: scenario_tree_def num_vertices_tree_def root_def)
  from lca_self_root_commutative[OF a] a n show ?thesis by simp
qed

end
